theory Spec2Isabelle
  imports Complex_Main "HOL-Library.AList"
begin

section \<open>Texts\<close>

text \<open>
  A Python \<open>str\<close> is a sequence of code points, and \<open>len\<close> counts code points, so a
  text is modelled as the list of its code points. \<open>py\<close> turns an ASCII literal into
  such a text.
\<close>

type_synonym pystr = "nat list"

definition py :: "string \<Rightarrow> pystr" where
  "py s = map of_char s"

section \<open>The chunking loop of \<open>generate_openai_stream\<close>\<close>

text \<open>
  The test \<open>char in ['.', '!', '?', '\n']\<close> of the loop, on code points.
\<close>

definition sentence_end :: "nat \<Rightarrow> bool" where
  "sentence_end char \<longleftrightarrow> char \<in> set [46, 33, 63, 10]"

text \<open>
  The \<open>for char in ai_message\<close> loop, with its two variables \<open>sentences\<close> and
  \<open>current_sentence\<close> as accumulators; it returns both as they are when the text is
  exhausted.
\<close>

fun chunk_loop :: "pystr \<Rightarrow> pystr list \<Rightarrow> pystr \<Rightarrow> pystr list \<times> pystr" where
  "chunk_loop [] sentences current_sentence = (sentences, current_sentence)"
| "chunk_loop (char # rest) sentences current_sentence =
     (let current_sentence = current_sentence @ [char]
      in if sentence_end char \<or> length current_sentence \<ge> 80
         then chunk_loop rest (sentences @ [current_sentence]) []
         else chunk_loop rest sentences current_sentence)"

text \<open>
  The loop started on empty accumulators, followed by
  \<open>if current_sentence: sentences.append(current_sentence)\<close>.
\<close>

definition add_remaining :: "pystr list \<times> pystr \<Rightarrow> pystr list" where
  "add_remaining p =
     (case p of (sentences, current_sentence) \<Rightarrow>
        if current_sentence \<noteq> [] then sentences @ [current_sentence] else sentences)"

definition chunk :: "pystr \<Rightarrow> pystr list" where
  "chunk ai_message = add_remaining (chunk_loop ai_message [] [])"

subsection \<open>The chunker as the specification words it\<close>

text \<open>
  The specification's chunker: each fragment is the shortest non-empty prefix of what is left
  that ends with a sentence-terminal character or has 80 characters, and a remainder with
  no such prefix is the last fragment. \<open>k\<close> counts the characters before the first
  terminal among the first 79, so the fragment has \<open>k + 1\<close> characters (or is the whole
  remainder when that is shorter).
\<close>

fun chunk_spec :: "pystr \<Rightarrow> pystr list" where
  "chunk_spec t =
     (if t = [] then []
      else let k = length (takeWhile (\<lambda>c. \<not> sentence_end c) (take 79 t))
           in take (Suc k) t # chunk_spec (drop (Suc k) t))"

declare chunk_spec.simps [simp del]

section \<open>Messages and histories\<close>

text \<open>
  \<open>HumanMessage(content=...)\<close> and \<open>AIMessage(content=...)\<close>. A
  \<open>ChatMessageHistory\<close> is a mutable object that the session record and the running turn
  both hold, so histories live in a heap: a reference is a number, \<open>heap\<close> gives the
  messages of each object and \<open>next_ref\<close> is the next unused reference.
\<close>

datatype message = HumanMessage (content: pystr) | AIMessage (content: pystr)

type_synonym ref = nat

section \<open>The session manager\<close>

text \<open>
  One value of \<open>self.sessions\<close>: \<open>{"history": ..., "last_access": ...}\<close>. Clock readings
  (\<open>time.time()\<close>) are real numbers of seconds; the rounding of Python's floats in the
  subtraction of two readings is not modelled.
\<close>

record session_data =
  history :: ref
  last_access :: real

text \<open>
  \<open>self.sessions\<close> is a Python dict, which keeps its keys in insertion order: an
  association list, where \<open>AList.update\<close> overwrites a key in place or appends a new one
  and \<open>AList.delete\<close> is \<open>del\<close>.
\<close>

record SessionManager =
  sessions :: "(pystr \<times> session_data) list"
  expiry_hours :: real
  max_sessions :: int

record program =
  session_manager :: SessionManager
  heap :: "ref \<Rightarrow> message list"
  next_ref :: ref

definition SESSION_EXPIRY_HOURS :: real where
  "SESSION_EXPIRY_HOURS = 24"

definition MAX_SESSIONS :: int where
  "MAX_SESSIONS = 1000"

text \<open>\<open>SessionManager.__init__\<close>, and a program state holding only that manager.\<close>

definition init :: "real \<Rightarrow> int \<Rightarrow> SessionManager" where
  "init expiry_hours' max_sessions' =
     \<lparr>sessions = [], expiry_hours = expiry_hours', max_sessions = max_sessions'\<rparr>"

definition start :: "real \<Rightarrow> int \<Rightarrow> program" where
  "start expiry_hours' max_sessions' =
     \<lparr>session_manager = init expiry_hours' max_sessions', heap = (\<lambda>_. []), next_ref = 0\<rparr>"

text \<open>
  \<open>_clean_expired_sessions\<close>; \<open>current_time\<close> is its reading of the clock. The keys to
  delete are collected first, then deleted one by one.
\<close>

definition expired :: "real \<Rightarrow> real \<Rightarrow> session_data \<Rightarrow> bool" where
  "expired current_time expiry_seconds data \<longleftrightarrow>
     current_time - last_access data > expiry_seconds"

definition clean_expired_sessions :: "real \<Rightarrow> SessionManager \<Rightarrow> SessionManager" where
  "clean_expired_sessions current_time self =
     (let expiry_seconds = expiry_hours self * 3600;
          expired_sessions =
            map fst (filter (\<lambda>(session_id, data). expired current_time expiry_seconds data)
                       (sessions self))
      in self\<lparr>sessions := fold AList.delete expired_sessions (sessions self)\<rparr>)"

text \<open>
  Python's \<open>min(iterable, key=...)\<close> on a non-empty iterable: the running best is replaced
  only by a strictly smaller key, so the first minimal element wins.
\<close>

fun min_by :: "('a \<Rightarrow> real) \<Rightarrow> 'a \<Rightarrow> 'a list \<Rightarrow> 'a" where
  "min_by key best [] = best"
| "min_by key best (x # xs) = (if key x < key best then min_by key x xs else min_by key best xs)"

text \<open>
  \<open>_remove_oldest_session\<close>. The key function looks up the record of the identifier it is
  given, so the minimum runs over the dict's items in order.
\<close>

definition remove_oldest_session :: "SessionManager \<Rightarrow> SessionManager" where
  "remove_oldest_session self =
     (case sessions self of
        [] \<Rightarrow> self
      | item # items \<Rightarrow>
          let oldest_session_id = fst (min_by (\<lambda>(session_id, data). last_access data) item items)
          in self\<lparr>sessions := AList.delete oldest_session_id (sessions self)\<rparr>)"

text \<open>
  \<open>get_history\<close>. The clock is read twice in one call: \<open>now_clean\<close> by the sweep and
  \<open>now_access\<close> when the record is touched or created. It returns the reference of the
  session's history and the new state.
\<close>

definition get_history :: "pystr \<Rightarrow> real \<Rightarrow> real \<Rightarrow> program \<Rightarrow> ref \<times> program" where
  "get_history session_id now_clean now_access st =
     (let self = clean_expired_sessions now_clean (session_manager st)
      in case map_of (sessions self) session_id of
           Some data \<Rightarrow>
             (history data,
              st\<lparr>session_manager :=
                   self\<lparr>sessions :=
                     AList.update session_id (data\<lparr>last_access := now_access\<rparr>) (sessions self)\<rparr>\<rparr>)
         | None \<Rightarrow>
             let self = (if int (length (sessions self)) \<ge> max_sessions self
                         then remove_oldest_session self else self);
                 history' = next_ref st
             in (history',
                 st\<lparr>session_manager :=
                      self\<lparr>sessions :=
                        AList.update session_id
                          \<lparr>history = history', last_access = now_access\<rparr> (sessions self)\<rparr>,
                    heap := (heap st)(history' := []),
                    next_ref := Suc history'\<rparr>))"

text \<open>A sequence of \<open>get_history\<close> calls, each with its identifier and its two clock readings.\<close>

fun get_histories :: "(pystr \<times> real \<times> real) list \<Rightarrow> program \<Rightarrow> program" where
  "get_histories [] st = st"
| "get_histories ((session_id, now_clean, now_access) # calls) st =
     get_histories calls (snd (get_history session_id now_clean now_access st))"

text \<open>The identifiers stored, and the messages stored under an identifier.\<close>

definition session_ids :: "program \<Rightarrow> pystr list" where
  "session_ids st = map fst (sessions (session_manager st))"

definition messages_of :: "program \<Rightarrow> pystr \<Rightarrow> message list option" where
  "messages_of st session_id =
     map_option (\<lambda>data. heap st (history data)) (map_of (sessions (session_manager st)) session_id)"

text \<open>
  What a Python dict of distinct history objects guarantees: keys are unique, every stored
  reference is allocated, and no two records share a history.
\<close>

definition well_formed :: "program \<Rightarrow> bool" where
  "well_formed st \<longleftrightarrow>
     distinct (map fst (sessions (session_manager st))) \<and>
     distinct (map (\<lambda>(session_id, data). history data) (sessions (session_manager st))) \<and>
     list_all (\<lambda>(session_id, data). history data < next_ref st) (sessions (session_manager st))"

section \<open>One turn: \<open>generate_openai_stream\<close>\<close>

text \<open>\<open>message_history.add_message(m)\<close> on the history object behind a reference.\<close>

definition add_message :: "ref \<Rightarrow> message \<Rightarrow> program \<Rightarrow> program" where
  "add_message message_history m st =
     st\<lparr>heap := (heap st)(message_history := heap st message_history @ [m])\<rparr>"

text \<open>What is yielded for one fragment: the SSE frame around its JSON, or the fragment.
  \<open>json.dumps({'content': ...})\<close> is a parameter.\<close>

definition emit :: "(pystr \<Rightarrow> pystr) \<Rightarrow> bool \<Rightarrow> pystr \<Rightarrow> pystr" where
  "emit dumps format_as_sse sentence =
     (if format_as_sse then py ''data: '' @ dumps sentence @ [10, 10] else sentence)"

text \<open>The turn up to the \<open>try\<close>: fetch the history, append the human message.\<close>

definition begin_turn :: "pystr \<Rightarrow> pystr \<Rightarrow> real \<Rightarrow> real \<Rightarrow> program \<Rightarrow> ref \<times> program" where
  "begin_turn content' session_id now_clean now_access st =
     (case get_history session_id now_clean now_access st of
        (message_history, st) \<Rightarrow>
          (message_history, add_message message_history (HumanMessage content') st))"

text \<open>
  The agent executor that \<open>create_agent\<close> builds (the model and its tools) is outside the
  repository, so it is a parameter: given the messages of the chat history and the user's
  text, it either raises (\<open>Inl\<close> of \<open>str(e)\<close>) or returns \<open>result["output"]\<close> (\<open>Inr\<close>).
\<close>

type_synonym executor = "message list \<Rightarrow> pystr \<Rightarrow> pystr + pystr"

text \<open>
  \<open>agent_with_chat_history.ainvoke\<close>: the \<open>RunnableWithMessageHistory\<close> that lines 211 to
  216 put around the executor with \<open>session_manager.get_history\<close> as its source of
  histories. The class is LangChain's; it is modelled as the repository uses it. In
  \<open>chainlit_app.py\<close> the same wrapper is built "for session persistence" and nothing else
  adds a message to the history, so the wrapper does: it fetches the history of the session
  through the callback (one more \<open>get_history\<close>, with its own two clock readings), hands
  its messages and the input to the executor, and when the executor returns it appends the
  input as a human message and the output as an AI message to that history. When the
  executor raises, nothing is appended.
\<close>

definition agent_with_chat_history ::
  "executor \<Rightarrow> real \<Rightarrow> real \<Rightarrow> pystr \<Rightarrow> pystr \<Rightarrow> program \<Rightarrow> (pystr + pystr) \<times> program" where
  "agent_with_chat_history agent_executor now_clean now_access input session_id st =
     (case get_history session_id now_clean now_access st of
        (hist, st) \<Rightarrow>
          (case agent_executor (heap st hist) input of
             Inr output \<Rightarrow>
               (Inr output,
                add_message hist (AIMessage output) (add_message hist (HumanMessage input) st))
           | Inl e \<Rightarrow> (Inl e, st)))"

text \<open>
  The whole generator, run to its end: everything it yields, in order, and the state it
  leaves. \<open>now_clean\<close> and \<open>now_access\<close> are the clock readings of the \<open>get_history\<close> of
  line 205, \<open>now_clean'\<close> and \<open>now_access'\<close> those of the wrapper's. The \<open>Inl\<close> branch
  is the \<open>except Exception\<close> handler.
\<close>

definition generate_openai_stream ::
  "executor \<Rightarrow> (pystr \<Rightarrow> pystr) \<Rightarrow> pystr \<Rightarrow> pystr \<Rightarrow> bool \<Rightarrow> real \<Rightarrow> real \<Rightarrow> real \<Rightarrow> real
     \<Rightarrow> program \<Rightarrow> pystr list \<times> program" where
  "generate_openai_stream agent_executor dumps content' session_id format_as_sse
       now_clean now_access now_clean' now_access' st =
     (case begin_turn content' session_id now_clean now_access st of
        (message_history, st) \<Rightarrow>
          (case agent_with_chat_history agent_executor now_clean' now_access' content' session_id st of
             (Inr ai_message, st) \<Rightarrow>
               (map (emit dumps format_as_sse) (chunk ai_message),
                add_message message_history (AIMessage ai_message) st)
           | (Inl e, st) \<Rightarrow>
               (let error_message = py ''Error processing request: '' @ e
                in ([emit dumps format_as_sse error_message], st))))"

text \<open>What the wrapped invocation returned in a turn started in state \<open>st\<close>.\<close>

definition turn_outcome ::
  "executor \<Rightarrow> pystr \<Rightarrow> pystr \<Rightarrow> real \<Rightarrow> real \<Rightarrow> real \<Rightarrow> real \<Rightarrow> program \<Rightarrow> pystr + pystr" where
  "turn_outcome agent_executor content' session_id now_clean now_access now_clean' now_access' st =
     (case begin_turn content' session_id now_clean now_access st of
        (message_history, st1) \<Rightarrow>
          fst (agent_with_chat_history agent_executor now_clean' now_access' content' session_id st1))"

text \<open>
  Two executors for concrete runs: one that raises with a given text, one that answers
  \<open>"Re: "\<close> and the user's text.
\<close>

definition failing_executor :: "pystr \<Rightarrow> executor" where
  "failing_executor e chat_history input = Inl e"

definition replying_executor :: executor where
  "replying_executor chat_history input = Inr (py ''Re: '' @ input)"

text \<open>A whole turn with the replying executor, every clock reading of the turn the same.\<close>

definition reply_turn :: "pystr \<Rightarrow> pystr \<Rightarrow> real \<Rightarrow> program \<Rightarrow> program" where
  "reply_turn session_id content' now st =
     snd (generate_openai_stream replying_executor (\<lambda>s. s) content' session_id False
            now now now now st)"

section \<open>A store for concrete runs\<close>

text \<open>
  A manager with the default expiry and room for two sessions, after \<open>"a"\<close> and \<open>"b"\<close> were
  created at time 0 and \<open>"a"\<close> was accessed again after one hour.
\<close>

definition two_sessions :: program where
  "two_sessions =
     get_histories [(py ''a'', 0, 0), (py ''b'', 0, 0), (py ''a'', 3600, 3600)] (start 24 2)"

section \<open>Properties of the chunking loop\<close>

lemma chunk_loop_concat:
  "concat (add_remaining (chunk_loop t ss cur)) = concat ss @ cur @ t"
  by (induction t arbitrary: ss cur) (auto simp: add_remaining_def Let_def)

lemma chunk_loop_bounds:
  "length cur < 80 \<Longrightarrow> \<forall>f \<in> set ss. f \<noteq> [] \<and> length f \<le> 80 \<Longrightarrow>
   \<forall>f \<in> set (add_remaining (chunk_loop t ss cur)). f \<noteq> [] \<and> length f \<le> 80"
proof (induction t arbitrary: ss cur)
  case Nil
  then show ?case by (auto simp: add_remaining_def)
next
  case (Cons c cs)
  show ?case
  proof (cases "sentence_end c \<or> 80 \<le> length (cur @ [c])")
    case True
    have "\<forall>f \<in> set (ss @ [cur @ [c]]). f \<noteq> [] \<and> length f \<le> 80"
      using Cons.prems by auto
    from Cons.IH [OF _ this, of "[]"] True show ?thesis by (simp add: Let_def)
  next
    case False
    then have "length (cur @ [c]) < 80" by simp
    from Cons.IH [OF this Cons.prems(2)] False show ?thesis by (simp add: Let_def)
  qed
qed

lemma chunk_loop_refines:
  "length cur < 80 \<Longrightarrow>
   add_remaining (chunk_loop t ss cur) =
     ss @ (if cur @ t = [] then []
           else let k = length (takeWhile (\<lambda>c. \<not> sentence_end c) (take (79 - length cur) t))
                in (cur @ take (Suc k) t) # chunk_spec (drop (Suc k) t))"
proof (induction t arbitrary: ss cur)
  case Nil
  then show ?case by (simp add: add_remaining_def chunk_spec.simps [of "[]"])
next
  case (Cons c cs)
  show ?case
  proof (cases "sentence_end c \<or> 80 \<le> length (cur @ [c])")
    case True
    then have k0: "takeWhile (\<lambda>c. \<not> sentence_end c) (take (79 - length cur) (c # cs)) = []"
      by (cases "79 - length cur") auto
    have "add_remaining (chunk_loop cs (ss @ [cur @ [c]]) []) = (ss @ [cur @ [c]]) @ chunk_spec cs"
      using Cons.IH [of "[]" "ss @ [cur @ [c]]"] by (simp add: chunk_spec.simps [of cs])
    with True k0 show ?thesis by (simp add: Let_def)
  next
    case False
    then have lt: "length (cur @ [c]) < 80" and ne: "\<not> sentence_end c" by auto
    from lt obtain m where m: "79 - length cur = Suc m" "79 - length (cur @ [c]) = m"
      by (cases "79 - length cur") auto
    from Cons.IH [OF lt, of ss] False m ne show ?thesis by (simp add: Let_def)
  qed
qed

lemma chunk_eq_chunk_spec: "chunk T = chunk_spec T"
  using chunk_loop_refines [of "[]" T "[]"]
  by (simp add: chunk_def chunk_spec.simps [of T])

lemma chunk_loop_append:
  "chunk_loop (a @ b) ss cur = (case chunk_loop a ss cur of (ss', cur') \<Rightarrow> chunk_loop b ss' cur')"
  by (induction a arbitrary: ss cur) (auto simp: Let_def)

lemma chunk_loop_short:
  "\<forall>c \<in> set t. \<not> sentence_end c \<Longrightarrow> length cur + length t < 80 \<Longrightarrow>
   chunk_loop t ss cur = (ss, cur @ t)"
  by (induction t arbitrary: cur) (auto simp: Let_def)

lemma chunk_loop_full:
  "\<forall>c \<in> set t. \<not> sentence_end c \<Longrightarrow> length cur + length t = 80 \<Longrightarrow> t \<noteq> [] \<Longrightarrow>
   chunk_loop t ss cur = (ss @ [cur @ t], [])"
proof (induction t arbitrary: cur)
  case Nil
  then show ?case by simp
next
  case (Cons c cs)
  show ?case
  proof (cases "cs = []")
    case True
    with Cons.prems show ?thesis by (simp add: Let_def)
  next
    case False
    from Cons.prems have len: "length (cur @ [c]) + length cs = 80"
      by simp
    from False have "0 < length cs" by simp
    with len have "\<not> 80 \<le> length (cur @ [c])" by linarith
    with Cons.IH [of "cur @ [c]"] len Cons.prems(1) False show ?thesis by (simp add: Let_def)
  qed
qed

lemma chunk_two_full_fragments:
  assumes "length T = 160" "\<forall>c \<in> set T. \<not> sentence_end c"
  shows "chunk T = [take 80 T, drop 80 T]"
proof -
  have a: "\<forall>c \<in> set (take 80 T). \<not> sentence_end c" using assms(2) by (meson in_set_takeD)
  have b: "\<forall>c \<in> set (drop 80 T). \<not> sentence_end c" using assms(2) by (meson in_set_dropD)
  have la: "length (take 80 T) = 80" and lb: "length (drop 80 T) = 80" using assms(1) by auto
  have na: "take 80 T \<noteq> []" and nb: "drop 80 T \<noteq> []" using assms(1) by auto
  have s1: "chunk_loop (take 80 T) [] [] = ([take 80 T], [])"
    using chunk_loop_full [OF a _ na, of "[]" "[]"] la by simp
  have s2: "chunk_loop (drop 80 T) [take 80 T] [] = ([take 80 T, drop 80 T], [])"
    using chunk_loop_full [OF b _ nb, of "[]" "[take 80 T]"] lb by simp
  have "chunk_loop T [] [] =
          (case chunk_loop (take 80 T) [] [] of (ss', cur') \<Rightarrow> chunk_loop (drop 80 T) ss' cur')"
    using chunk_loop_append [of "take 80 T" "drop 80 T" "[]" "[]"] by simp
  with s1 s2 have "chunk_loop T [] [] = ([take 80 T, drop 80 T], [])" by simp
  then show ?thesis by (simp add: chunk_def add_remaining_def)
qed

text \<open>
  Claim C5. For every text \<open>T\<close>, the fragments the chunking loop produces for \<open>T\<close>,
  concatenated in order, are \<open>T\<close> again: no character is dropped or duplicated.
\<close>

theorem chunk_roundtrip: "concat (chunk T) = T"
  using chunk_loop_concat [of T "[]" "[]"] by (simp add: chunk_def)

text \<open>
  Claim C6. The loop computes the greedy left-to-right split of the specification: a
  fragment is closed exactly when it ends with a period, an exclamation mark, a question
  mark or a newline, or when it has reached 80 characters, and a non-empty remainder is the
  last fragment. In particular a text of 160 characters with none of the four terminal
  characters gives exactly two fragments, its first and its last 80 characters.
\<close>

theorem chunk_greedy:
  "chunk T = chunk_spec T \<and>
   (length T = 160 \<and> (\<forall>c \<in> set T. \<not> sentence_end c) \<longrightarrow>
      chunk T = [take 80 T, drop 80 T] \<and>
      length (take 80 T) = 80 \<and> length (drop 80 T) = 80)"
  using chunk_eq_chunk_spec [of T] chunk_two_full_fragments [of T] by auto

theorem chunk_greedy_witness:
  "length (replicate 160 (97::nat)) = 160 \<and>
   set (replicate 160 (97::nat)) = {97} \<and> \<not> sentence_end 97 \<and>
   chunk (replicate 160 97) = [replicate 80 97, replicate 80 97] \<and>
   chunk_spec (replicate 160 97) = [replicate 80 97, replicate 80 97]"
proof -
  have n: "\<not> sentence_end 97"
    by (simp add: sentence_end_def)
  have s: "set (replicate 160 (97::nat)) = {97}"
    by simp
  from n have h: "length (replicate 160 (97::nat)) = 160 \<and>
                (\<forall>c \<in> set (replicate 160 (97::nat)). \<not> sentence_end c)"
    by simp
  have t: "take 80 (replicate 160 (97::nat)) = replicate 80 97"
          "drop 80 (replicate 160 (97::nat)) = replicate 80 97"
    by simp_all
  from chunk_greedy [of "replicate 160 97"]
  have a: "chunk (replicate 160 97) = chunk_spec (replicate 160 97)"
    by (rule conjunct1)
  from chunk_greedy [of "replicate 160 97"]
  have "length (replicate 160 (97::nat)) = 160 \<and>
        (\<forall>c \<in> set (replicate 160 (97::nat)). \<not> sentence_end c) \<longrightarrow>
        chunk (replicate 160 97) = [take 80 (replicate 160 97), drop 80 (replicate 160 97)] \<and>
        length (take 80 (replicate 160 (97::nat))) = 80 \<and>
        length (drop 80 (replicate 160 (97::nat))) = 80"
    by (rule conjunct2)
  from mp [OF this h]
  have b: "chunk (replicate 160 97) = [take 80 (replicate 160 97), drop 80 (replicate 160 97)]"
    by (rule conjunct1)
  have "chunk (replicate 160 97) = [replicate 80 97, replicate 80 97] \<and>
        chunk_spec (replicate 160 97) = [replicate 80 97, replicate 80 97]"
    unfolding a [symmetric] b t by (rule conjI) (rule refl)+
  with h s n show ?thesis by (intro conjI) (erule conjunct1 conjunct2 | assumption)+
qed

text \<open>
  Claim C10. Every fragment the chunking loop produces is non-empty and has at most 80
  characters: the length is tested after each appended character and the fragment is
  closed at exactly 80, and the remainder is added only when it is non-empty, so the empty
  text gives no fragment at all.
\<close>

theorem chunk_fragment_bounds:
  "(\<forall>f \<in> set (chunk T). f \<noteq> [] \<and> length f \<le> 80) \<and> chunk [] = []"
proof
  show "\<forall>f \<in> set (chunk T). f \<noteq> [] \<and> length f \<le> 80"
    unfolding chunk_def by (rule chunk_loop_bounds) simp_all
  show "chunk [] = []"
    by (simp add: chunk_def add_remaining_def)
qed

theorem chunk_fragment_bounds_witness:
  "py ''Hi.'' \<in> set (chunk (py ''Hi. Yes'')) \<and> py ''Hi.'' \<noteq> [] \<and> length (py ''Hi.'') \<le> 80"
proof -
  have m: "py ''Hi.'' \<in> set (chunk (py ''Hi. Yes''))"
    by (simp add: chunk_def add_remaining_def py_def sentence_end_def)
  from chunk_fragment_bounds [of "py ''Hi. Yes''"]
  have "\<forall>f \<in> set (chunk (py ''Hi. Yes'')). f \<noteq> [] \<and> length f \<le> 80" by (rule conjunct1)
  from m bspec [OF this m] show ?thesis by (rule conjI)
qed

section \<open>Properties of the session manager\<close>

subsection \<open>The dict operations and the sweep\<close>

lemma delete_filter: "AList.delete k al = filter (\<lambda>p. fst p \<noteq> k) al"
  by (induction al) auto

lemma fold_delete_filter:
  "fold AList.delete ks al = filter (\<lambda>p. fst p \<notin> set ks) al"
proof (induction ks arbitrary: al)
  case Nil
  show ?case by simp
next
  case (Cons k ks)
  have "AList.delete k al = filter (\<lambda>p. fst p \<noteq> k) al"
    by (rule delete_filter)
  with Cons.IH [of "AList.delete k al"] show ?case
    by (auto intro: filter_cong)
qed

lemma distinct_keys_eq:
  "distinct (map fst al) \<Longrightarrow> p \<in> set al \<Longrightarrow> q \<in> set al \<Longrightarrow> fst p = fst q \<Longrightarrow> p = q"
  by (metis distinct_map inj_onD)

lemma sessions_clean_expired:
  assumes "distinct (map fst (sessions self))"
  shows "sessions (clean_expired_sessions t self) =
           filter (\<lambda>p. \<not> expired t (expiry_hours self * 3600) (snd p)) (sessions self)"
proof -
  let ?E = "\<lambda>p. expired t (expiry_hours self * 3600) (snd p)"
  have "filter (\<lambda>p. fst p \<notin> set (map fst (filter ?E (sessions self)))) (sessions self) =
        filter (\<lambda>p. \<not> ?E p) (sessions self)"
  proof (rule filter_cong [OF refl])
    fix p assume p: "p \<in> set (sessions self)"
    show "(fst p \<notin> set (map fst (filter ?E (sessions self)))) = (\<not> ?E p)"
    proof
      assume "fst p \<notin> set (map fst (filter ?E (sessions self)))"
      with p show "\<not> ?E p" by force
    next
      assume n: "\<not> ?E p"
      show "fst p \<notin> set (map fst (filter ?E (sessions self)))"
      proof
        assume "fst p \<in> set (map fst (filter ?E (sessions self)))"
        then obtain q where q: "q \<in> set (sessions self)" "?E q" "fst q = fst p" by auto
        with distinct_keys_eq [OF assms p q(1)] n show False by simp
      qed
    qed
  qed
  then show ?thesis
    by (simp add: clean_expired_sessions_def Let_def fold_delete_filter case_prod_unfold)
qed

lemma clean_expired_fields [simp]:
  "expiry_hours (clean_expired_sessions t self) = expiry_hours self"
  "max_sessions (clean_expired_sessions t self) = max_sessions self"
  by (simp_all add: clean_expired_sessions_def Let_def)

lemma min_by_in: "min_by key b xs \<in> set (b # xs)"
  by (induction xs arbitrary: b) auto

lemma min_by_le: "x \<in> set (b # xs) \<Longrightarrow> key (min_by key b xs) \<le> key x"
proof (induction xs arbitrary: b x)
  case Nil
  then show ?case by simp
next
  case (Cons y ys)
  have mono: "key (min_by key c ys) \<le> key c" for c
    using Cons.IH [where x = c and b = c] by simp
  show ?case
  proof (cases "key y < key b")
    case True
    with Cons.prems Cons.IH [where b = y and x = x] mono [of y] show ?thesis by auto
  next
    case False
    with Cons.prems Cons.IH [where b = b and x = x] mono [of b] show ?thesis by auto
  qed
qed

lemma update_absent: "map_of al k = None \<Longrightarrow> AList.update k v al = al @ [(k, v)]"
  by (induction al) (auto split: if_splits)

lemma update_present:
  "distinct (map fst al) \<Longrightarrow> map_of al k = Some d \<Longrightarrow>
   AList.update k v al = map (\<lambda>p. if fst p = k then (k, v) else p) al"
proof (induction al)
  case Nil
  then show ?case by simp
next
  case (Cons a al)
  show ?case
  proof (cases "fst a = k")
    case True
    with Cons.prems have "k \<notin> fst ` set al" by simp
    then have "\<forall>p \<in> set al. fst p \<noteq> k" by blast
    then have "map (\<lambda>p. if fst p = k then (k, v) else p) al = al"
      by (simp add: map_idI)
    with True show ?thesis by (cases a) simp
  next
    case False
    with Cons show ?thesis by (cases a) auto
  qed
qed

lemma delete_distinct:
  "distinct (map fst al) \<Longrightarrow> (k, d) \<in> set al \<Longrightarrow> AList.delete k al = remove1 (k, d) al"
proof (induction al)
  case Nil
  then show ?case by simp
next
  case (Cons a al)
  show ?case
  proof (cases "fst a = k")
    case True
    with Cons.prems have a: "a = (k, d)" by (cases a) force
    from Cons.prems True have "k \<notin> fst ` set al" by simp
    with a show ?thesis by simp
  next
    case False
    with Cons show ?thesis by (cases a) auto
  qed
qed


lemma remove_oldest_fields [simp]:
  "expiry_hours (remove_oldest_session self) = expiry_hours self"
  "max_sessions (remove_oldest_session self) = max_sessions self"
  by (simp_all add: remove_oldest_session_def Let_def split: list.splits)

lemma remove_oldest_empty: "sessions self = [] \<Longrightarrow> remove_oldest_session self = self"
  by (simp add: remove_oldest_session_def)

lemma remove_oldest_least:
  assumes "distinct (map fst (sessions self))" "sessions self \<noteq> []"
  shows "\<exists>k d. (k, d) \<in> set (sessions self) \<and>
               (\<forall>p \<in> set (sessions self). last_access d \<le> last_access (snd p)) \<and>
               sessions (remove_oldest_session self) = remove1 (k, d) (sessions self)"
proof -
  from assms(2) obtain item items where al: "sessions self = item # items"
    by (cases "sessions self") auto
  let ?key = "\<lambda>(session_id, data). last_access data"
  let ?m = "min_by ?key item items"
  have m_in: "?m \<in> set (sessions self)" using min_by_in [of ?key item items] al by simp
  have m_le: "\<forall>p \<in> set (sessions self). last_access (snd ?m) \<le> last_access (snd p)"
  proof
    fix p assume "p \<in> set (sessions self)"
    with al min_by_le [of p item items ?key] show "last_access (snd ?m) \<le> last_access (snd p)"
      by (simp add: case_prod_unfold)
  qed
  have "(fst ?m, snd ?m) \<in> set (sessions self)" using m_in by simp
  from delete_distinct [OF assms(1) this]
  have "sessions (remove_oldest_session self) = remove1 (fst ?m, snd ?m) (sessions self)"
    by (simp add: remove_oldest_session_def al Let_def)
  with m_in m_le show ?thesis by (metis prod.collapse)
qed

lemma remove_oldest_subset:
  "set (sessions (remove_oldest_session self)) \<subseteq> set (sessions self)"
  by (auto simp: remove_oldest_session_def Let_def AList.delete_eq split: list.splits)

lemma get_history_existing:
  assumes "distinct (map fst (sessions (session_manager st)))"
    and "map_of (sessions (clean_expired_sessions t1 (session_manager st))) sid = Some d"
  shows "get_history sid t1 t2 st =
           (history d,
            st\<lparr>session_manager := (clean_expired_sessions t1 (session_manager st))
               \<lparr>sessions := map (\<lambda>p. if fst p = sid then (sid, d\<lparr>last_access := t2\<rparr>) else p)
                              (sessions (clean_expired_sessions t1 (session_manager st)))\<rparr>\<rparr>)"
proof -
  have "distinct (map fst (sessions (clean_expired_sessions t1 (session_manager st))))"
    using assms(1) by (simp add: sessions_clean_expired distinct_map_filter)
  from update_present [OF this assms(2)] assms(2) show ?thesis
    by (simp add: get_history_def Let_def)
qed

lemma map_of_remove_oldest_None:
  "map_of (sessions self) sid = None \<Longrightarrow> map_of (sessions (remove_oldest_session self)) sid = None"
  by (auto simp: remove_oldest_session_def Let_def AList.delete_conv' split: list.splits)

lemma get_history_new:
  assumes "map_of (sessions (clean_expired_sessions t1 (session_manager st))) sid = None"
    and "base = (if max_sessions (session_manager st)
                      \<le> int (length (sessions (clean_expired_sessions t1 (session_manager st))))
                 then remove_oldest_session (clean_expired_sessions t1 (session_manager st))
                 else clean_expired_sessions t1 (session_manager st))"
  shows "get_history sid t1 t2 st =
           (next_ref st,
            st\<lparr>session_manager :=
                 base\<lparr>sessions := sessions base @ [(sid, \<lparr>history = next_ref st, last_access = t2\<rparr>)]\<rparr>,
               heap := (heap st)(next_ref st := []),
               next_ref := Suc (next_ref st)\<rparr>)"
proof -
  have "map_of (sessions base) sid = None"
    using assms by (simp add: map_of_remove_oldest_None)
  from update_absent [OF this] assms show ?thesis
    by (simp add: get_history_def Let_def)
qed


lemma remove_oldest_filter:
  "\<exists>Q. sessions (remove_oldest_session self) = filter Q (sessions self)"
proof (cases "sessions self")
  case Nil
  then have "sessions (remove_oldest_session self) = filter (\<lambda>_. True) (sessions self)"
    by (simp add: remove_oldest_session_def)
  then show ?thesis
    by (rule exI [of "\<lambda>Q. sessions (remove_oldest_session self) = filter Q (sessions self)"])
next
  case (Cons item items)
  define k where "k = fst (min_by (\<lambda>(session_id, data). last_access data) item items)"
  have "sessions (remove_oldest_session self) = filter (\<lambda>p. fst p \<noteq> k) (sessions self)"
    by (simp add: remove_oldest_session_def Cons Let_def k_def delete_filter)
  then show ?thesis
    by (rule exI [of "\<lambda>Q. sessions (remove_oldest_session self) = filter Q (sessions self)"])
qed

lemma well_formedI:
  assumes "sessions (session_manager st) = L" "next_ref st = n"
    and "distinct (map fst L)" "distinct (map (\<lambda>p. history (snd p)) L)"
    and "\<forall>x \<in> set (map (\<lambda>p. history (snd p)) L). x < n"
  shows "well_formed st"
  using assms by (simp add: well_formed_def list_all_iff case_prod_unfold)

lemma well_formedD:
  assumes "well_formed st"
  shows "distinct (map fst (sessions (session_manager st)))"
    and "distinct (map (\<lambda>p. history (snd p)) (sessions (session_manager st)))"
    and "\<forall>x \<in> set (map (\<lambda>p. history (snd p)) (sessions (session_manager st))). x < next_ref st"
  using assms by (simp_all add: well_formed_def list_all_iff case_prod_unfold)

lemma touch_same:
  assumes "distinct (map fst al)" "map_of al sid = Some d"
  shows "map fst (map (\<lambda>p. if fst p = sid then (sid, d\<lparr>last_access := t\<rparr>) else p) al) = map fst al"
    and "map (\<lambda>p. history (snd p))
           (map (\<lambda>p. if fst p = sid then (sid, d\<lparr>last_access := t\<rparr>) else p) al) =
         map (\<lambda>p. history (snd p)) al"
proof -
  let ?f = "\<lambda>p. if fst p = sid then (sid, d\<lparr>last_access := t\<rparr>) else p"
  have same: "fst (?f p) = fst p \<and> history (snd (?f p)) = history (snd p)" if "p \<in> set al" for p
  proof (cases "fst p = sid")
    case True
    from assms(2) have "(sid, d) \<in> set al" by (rule map_of_SomeD)
    from distinct_keys_eq [OF assms(1) that this] True have "p = (sid, d)" by simp
    then show ?thesis by simp
  next
    case False
    then show ?thesis by simp
  qed
  show "map fst (map ?f al) = map fst al"
    unfolding map_map by (rule map_cong [OF refl]) (simp add: same)
  show "map (\<lambda>p. history (snd p)) (map ?f al) = map (\<lambda>p. history (snd p)) al"
    unfolding map_map by (rule map_cong [OF refl]) (simp add: same)
qed

lemma well_formed_get_history:
  assumes "well_formed st"
  shows "well_formed (snd (get_history sid t1 t2 st))"
proof -
  let ?cl = "clean_expired_sessions t1 (session_manager st)"
  let ?h = "\<lambda>p :: pystr \<times> session_data. history (snd p)"
  note dk = well_formedD(1) [OF assms] and dh = well_formedD(2) [OF assms]
    and lt = well_formedD(3) [OF assms]
  have sw: "sessions ?cl = filter (\<lambda>p. \<not> expired t1 (expiry_hours (session_manager st) * 3600) (snd p))
                             (sessions (session_manager st))"
    by (rule sessions_clean_expired [OF dk])
  have dk': "distinct (map fst (sessions ?cl))" and dh': "distinct (map ?h (sessions ?cl))"
    using dk dh by (simp_all add: sw distinct_map_filter)
  have lt': "\<forall>x \<in> set (map ?h (sessions ?cl)). x < next_ref st"
    using lt by (auto simp: sw)
  show ?thesis
  proof (cases "map_of (sessions ?cl) sid")
    case (Some d)
    show ?thesis
      by (rule well_formedI [where n = "next_ref st"
            and L = "map (\<lambda>p. if fst p = sid then (sid, d\<lparr>last_access := t2\<rparr>) else p) (sessions ?cl)"])
         (simp_all add: get_history_existing [OF dk Some] touch_same [OF dk' Some] dk' dh' lt'
            del: set_map map_map)
  next
    case None
    define base where "base = (if max_sessions (session_manager st) \<le> int (length (sessions ?cl))
                                then remove_oldest_session ?cl else ?cl)"
    obtain Q where Q: "sessions base = filter Q (sessions ?cl)"
    proof (cases "max_sessions (session_manager st) \<le> int (length (sessions ?cl))")
      case True
      with remove_oldest_filter [of ?cl] that show ?thesis by (auto simp: base_def)
    next
      case False
      then have "sessions base = filter (\<lambda>_. True) (sessions ?cl)" by (simp add: base_def)
      with that show ?thesis by blast
    qed
    from None have "sid \<notin> fst ` set (sessions ?cl)" by (simp add: map_of_eq_None_iff)
    then have k: "sid \<notin> fst ` set (sessions base)" by (auto simp: Q)
    have hb: "\<forall>x \<in> set (map ?h (sessions base)). x < next_ref st" using lt' by (auto simp: Q)
    then have h: "next_ref st \<notin> set (map ?h (sessions base))" by blast
    have d1: "distinct (map fst (sessions base))" and d2: "distinct (map ?h (sessions base))"
      using dk' dh' by (simp_all add: Q distinct_map_filter)
    let ?L = "sessions base @ [(sid, \<lparr>history = next_ref st, last_access = t2\<rparr>)]"
    have a: "distinct (map fst ?L)" using d1 k by simp
    have b: "distinct (map ?h ?L)" using d2 h by simp
    have c: "\<forall>x \<in> set (map ?h ?L). x < Suc (next_ref st)" using hb by (auto simp: less_Suc_eq)
    show ?thesis
      by (rule well_formedI [OF _ _ a b c]) (simp_all add: get_history_new [OF None base_def])
  qed
qed

lemma well_formed_start: "well_formed (start E N)"
  by (simp add: well_formed_def start_def init_def)

lemma get_history_fields:
  "expiry_hours (session_manager (snd (get_history sid t1 t2 st))) = expiry_hours (session_manager st)"
  "max_sessions (session_manager (snd (get_history sid t1 t2 st))) = max_sessions (session_manager st)"
  by (simp_all add: get_history_def Let_def split: option.splits)

subsection \<open>The capacity bound\<close>

lemma length_remove1_in: "x \<in> set xs \<Longrightarrow> Suc (length (remove1 x xs)) = length xs"
  by (induction xs) auto

lemma get_history_length:
  assumes wf: "well_formed st"
    and cap: "1 \<le> max_sessions (session_manager st)"
    and le: "int (length (sessions (session_manager st))) \<le> max_sessions (session_manager st)"
  shows "int (length (sessions (session_manager (snd (get_history sid t1 t2 st)))))
           \<le> max_sessions (session_manager st)"
proof -
  let ?cl = "clean_expired_sessions t1 (session_manager st)"
  let ?N = "max_sessions (session_manager st)"
  note dk = well_formedD(1) [OF wf]
  have sw: "sessions ?cl = filter (\<lambda>p. \<not> expired t1 (expiry_hours (session_manager st) * 3600) (snd p))
                             (sessions (session_manager st))"
    by (rule sessions_clean_expired [OF dk])
  have dk': "distinct (map fst (sessions ?cl))"
    using dk by (simp add: sw distinct_map_filter)
  have len: "int (length (sessions ?cl)) \<le> ?N"
  proof -
    have "length (sessions ?cl) \<le> length (sessions (session_manager st))"
      unfolding sw by (rule length_filter_le)
    with le show ?thesis by linarith
  qed
  show ?thesis
  proof (cases "map_of (sessions ?cl) sid")
    case (Some d)
    with len show ?thesis by (simp add: get_history_existing [OF dk Some])
  next
    case None
    define base where "base = (if ?N \<le> int (length (sessions ?cl))
                                then remove_oldest_session ?cl else ?cl)"
    have "int (length (sessions base)) + 1 \<le> ?N"
    proof (cases "?N \<le> int (length (sessions ?cl))")
      case True
      with cap have ne: "sessions ?cl \<noteq> []" by auto
      from remove_oldest_least [OF dk' ne] obtain k d where
        "(k, d) \<in> set (sessions ?cl)"
        "sessions (remove_oldest_session ?cl) = remove1 (k, d) (sessions ?cl)" by blast
      with length_remove1_in [of "(k, d)" "sessions ?cl"]
      have "Suc (length (sessions (remove_oldest_session ?cl))) = length (sessions ?cl)" by simp
      with True len show ?thesis by (simp add: base_def)
    next
      case False
      then show ?thesis by (simp add: base_def)
    qed
    then show ?thesis by (simp add: get_history_new [OF None base_def])
  qed
qed

lemma get_histories_invariant:
  assumes "well_formed st" "1 \<le> max_sessions (session_manager st)"
    and "int (length (sessions (session_manager st))) \<le> max_sessions (session_manager st)"
  shows "well_formed (get_histories calls st) \<and>
         max_sessions (session_manager (get_histories calls st)) = max_sessions (session_manager st) \<and>
         int (length (sessions (session_manager (get_histories calls st))))
           \<le> max_sessions (session_manager st)"
  using assms
proof (induction calls arbitrary: st)
  case Nil
  then show ?case by simp
next
  case (Cons c calls)
  obtain sid t1 t2 where c: "c = (sid, t1, t2)" by (cases c) auto
  let ?st = "snd (get_history sid t1 t2 st)"
  have 1: "well_formed ?st" by (rule well_formed_get_history [OF Cons.prems(1)])
  have 2: "max_sessions (session_manager ?st) = max_sessions (session_manager st)"
    by (rule get_history_fields)
  have 3: "int (length (sessions (session_manager ?st))) \<le> max_sessions (session_manager st)"
    by (rule get_history_length [OF Cons.prems])
  from Cons.IH [of ?st] 1 2 3 Cons.prems(2) show ?case by (simp add: c)
qed


lemma min_by_first: "\<forall>x \<in> set xs. \<not> key x < key b \<Longrightarrow> min_by key b xs = b"
  by (induction xs) auto

lemma remove_oldest_same_time:
  assumes "distinct (map fst (sessions self))"
    and "\<forall>p \<in> set (sessions self). last_access (snd p) = t"
  shows "sessions (remove_oldest_session self) = tl (sessions self)"
proof (cases "sessions self")
  case Nil
  then show ?thesis by (simp add: remove_oldest_session_def)
next
  case (Cons item items)
  have "min_by (\<lambda>(session_id, data). last_access data) item items = item"
    using assms(2) by (intro min_by_first) (simp add: Cons case_prod_unfold)
  moreover have "AList.delete (fst item) (sessions self) = remove1 (fst item, snd item) (sessions self)"
    by (rule delete_distinct [OF assms(1)]) (simp add: Cons)
  ultimately show ?thesis by (simp add: remove_oldest_session_def Cons Let_def)
qed

lemma clean_expired_same_time:
  assumes "distinct (map fst (sessions self))" "0 \<le> expiry_hours self"
    and "\<forall>p \<in> set (sessions self). last_access (snd p) = t"
  shows "sessions (clean_expired_sessions t self) = sessions self"
proof -
  have "\<forall>p \<in> set (sessions self). \<not> expired t (expiry_hours self * 3600) (snd p)"
    using assms(2,3) by (simp add: expired_def)
  then show ?thesis by (simp add: sessions_clean_expired [OF assms(1)])
qed

lemma get_history_same_time:
  assumes wf: "well_formed st" and E: "0 \<le> expiry_hours (session_manager st)"
    and same: "\<forall>p \<in> set (sessions (session_manager st)). last_access (snd p) = t"
    and new: "sid \<notin> set (session_ids st)"
  shows "session_ids (snd (get_history sid t t st)) =
           (if max_sessions (session_manager st) \<le> int (length (session_ids st))
            then tl (session_ids st) else session_ids st) @ [sid]"
    and "\<forall>p \<in> set (sessions (session_manager (snd (get_history sid t t st)))). last_access (snd p) = t"
proof -
  let ?cl = "clean_expired_sessions t (session_manager st)"
  note dk = well_formedD(1) [OF wf]
  have sw: "sessions ?cl = sessions (session_manager st)"
    by (rule clean_expired_same_time [OF dk E same])
  have None: "map_of (sessions ?cl) sid = None"
    using new by (simp add: sw session_ids_def map_of_eq_None_iff)
  define base where "base = (if max_sessions (session_manager st) \<le> int (length (sessions ?cl))
                              then remove_oldest_session ?cl else ?cl)"
  have ro: "sessions (remove_oldest_session ?cl) = tl (sessions (session_manager st))"
    using remove_oldest_same_time [of ?cl t] dk same by (simp add: sw)
  have b: "sessions base = (if max_sessions (session_manager st) \<le> int (length (session_ids st))
                            then tl (sessions (session_manager st)) else sessions (session_manager st))"
    by (simp add: base_def ro sw session_ids_def)
  show "session_ids (snd (get_history sid t t st)) =
           (if max_sessions (session_manager st) \<le> int (length (session_ids st))
            then tl (session_ids st) else session_ids st) @ [sid]"
    by (simp add: get_history_new [OF None base_def] session_ids_def b map_tl)
  have "set (sessions base) \<subseteq> set (sessions (session_manager st))"
    by (cases "sessions (session_manager st)") (auto simp: b)
  with same show "\<forall>p \<in> set (sessions (session_manager (snd (get_history sid t t st)))). last_access (snd p) = t"
    by (auto simp: get_history_new [OF None base_def])
qed

lemma drop_tl_shift: "m < length X \<Longrightarrow> drop (length (tl X) - m) (tl X) = drop (length X - m) X"
  by (cases X) (simp_all add: Suc_diff_le)

lemma insert_same_time:
  assumes "well_formed st" "0 \<le> expiry_hours (session_manager st)"
    and "\<forall>p \<in> set (sessions (session_manager st)). last_access (snd p) = t"
    and "1 \<le> max_sessions (session_manager st)"
    and "int (length (session_ids st)) \<le> max_sessions (session_manager st)"
    and "distinct (session_ids st @ ids)"
  shows "session_ids (get_histories (map (\<lambda>k. (k, t, t)) ids) st) =
           drop (length (session_ids st @ ids) - nat (max_sessions (session_manager st)))
             (session_ids st @ ids)"
  using assms
proof (induction ids arbitrary: st)
  case Nil
  then show ?case by simp
next
  case (Cons sid ids)
  let ?st = "snd (get_history sid t t st)"
  let ?N = "max_sessions (session_manager st)"
  from Cons.prems(6) have new: "sid \<notin> set (session_ids st)" by auto
  note step = get_history_same_time [OF Cons.prems(1,2,3) new]
  have wf': "well_formed ?st" by (rule well_formed_get_history [OF Cons.prems(1)])
  have f: "expiry_hours (session_manager ?st) = expiry_hours (session_manager st)"
          "max_sessions (session_manager ?st) = ?N"
    by (rule get_history_fields)+
  show ?case
  proof (cases "?N \<le> int (length (session_ids st))")
    case True
    with Cons.prems(4,5) have len: "length (session_ids st) = nat ?N" "session_ids st \<noteq> []"
      by auto
    have ids': "session_ids ?st = tl (session_ids st) @ [sid]" using step(1) True by simp
    have d: "distinct (session_ids ?st @ ids)"
      using Cons.prems(6) len(2) by (cases "session_ids st") (auto simp: ids')
    have "length (session_ids ?st) = length (session_ids st)"
      using len(2) by (cases "session_ids st") (simp_all add: ids')
    with Cons.prems(5) have l: "int (length (session_ids ?st)) \<le> ?N" by simp
    have "session_ids (get_histories (map (\<lambda>k. (k, t, t)) ids) ?st) =
            drop (length (session_ids ?st @ ids) - nat ?N) (session_ids ?st @ ids)"
      using Cons.IH [OF wf' _ step(2) _ _ d] Cons.prems(2,4) l f by simp
    also have "session_ids ?st @ ids = tl (session_ids st @ sid # ids)"
      using len(2) by (simp add: ids')
    also have "drop (length (tl (session_ids st @ sid # ids)) - nat ?N) (tl (session_ids st @ sid # ids)) =
               drop (length (session_ids st @ sid # ids) - nat ?N) (session_ids st @ sid # ids)"
      by (rule drop_tl_shift) (simp add: len)
    finally show ?thesis by simp
  next
    case False
    have ids': "session_ids ?st = session_ids st @ [sid]" using step(1) False by simp
    have d: "distinct (session_ids ?st @ ids)" using Cons.prems(6) by (simp add: ids')
    have l: "int (length (session_ids ?st)) \<le> ?N" using False by (simp add: ids')
    have "session_ids (get_histories (map (\<lambda>k. (k, t, t)) ids) ?st) =
            drop (length (session_ids ?st @ ids) - nat ?N) (session_ids ?st @ ids)"
      using Cons.IH [OF wf' _ step(2) _ _ d] Cons.prems(2,4) l f by simp
    then show ?thesis by (simp add: ids')
  qed
qed

lemmas run_defs = start_def init_def get_history_def clean_expired_sessions_def expired_def
  remove_oldest_session_def Let_def session_ids_def

text \<open>
  Claim C1, amended. For every \<open>N \<ge> 1\<close>: after every sequence of \<open>get_history\<close> calls on
  a manager constructed with \<open>max_sessions = N\<close>, whatever the identifiers and the clock
  readings, at most \<open>N\<close> sessions are stored. And with a non-negative expiry, inserting
  \<open>N + 1\<close> distinct identifiers in sequence with every clock reading equal leaves exactly
  \<open>N\<close> sessions, the last \<open>N\<close> inserted; the first one is absent.
\<close>

theorem store_size_bounded:
  assumes "1 \<le> N"
  shows "int (length (session_ids (get_histories calls (start E N)))) \<le> N \<and>
         (0 \<le> E \<and> distinct ids \<and> int (length ids) = N + 1 \<longrightarrow>
            int (length (session_ids (get_histories (map (\<lambda>k. (k, t, t)) ids) (start E N)))) = N \<and>
            session_ids (get_histories (map (\<lambda>k. (k, t, t)) ids) (start E N)) = tl ids \<and>
            hd ids \<notin> set (session_ids (get_histories (map (\<lambda>k. (k, t, t)) ids) (start E N))))"
proof (intro conjI impI)
  have s: "max_sessions (session_manager (start E N)) = N"
    "expiry_hours (session_manager (start E N)) = E"
    "sessions (session_manager (start E N)) = []" "session_ids (start E N) = []"
    by (simp_all add: start_def init_def session_ids_def)
  show "int (length (session_ids (get_histories calls (start E N)))) \<le> N"
    using get_histories_invariant [OF well_formed_start [of E N], of calls] assms
    by (simp add: s session_ids_def)
  assume h: "0 \<le> E \<and> distinct ids \<and> int (length ids) = N + 1"
  then have l: "length ids = Suc (nat N)" using assms by linarith
  have "session_ids (get_histories (map (\<lambda>k. (k, t, t)) ids) (start E N)) =
          drop (length (session_ids (start E N) @ ids) - nat (max_sessions (session_manager (start E N))))
            (session_ids (start E N) @ ids)"
    using h assms by (intro insert_same_time well_formed_start) (simp_all add: s)
  then show eq: "session_ids (get_histories (map (\<lambda>k. (k, t, t)) ids) (start E N)) = tl ids"
    by (simp add: s l drop_Suc)
  from l assms show "int (length (session_ids (get_histories (map (\<lambda>k. (k, t, t)) ids) (start E N)))) = N"
    by (simp add: eq)
  from h l have "hd ids \<notin> set (tl ids)"
    by (cases ids) simp_all
  then show "hd ids \<notin> set (session_ids (get_histories (map (\<lambda>k. (k, t, t)) ids) (start E N)))"
    by (simp add: eq)
qed

theorem store_size_bounded_witness:
  "(1::int) \<le> 2 \<and> (0::real) \<le> 24 \<and> distinct [py ''a'', py ''b'', py ''c''] \<and>
   int (length [py ''a'', py ''b'', py ''c'']) = 2 + 1 \<and>
   int (length (session_ids (get_histories [(py ''a'', 0, 5), (py ''a'', 90000, 90001)] (start 24 2)))) \<le> 2 \<and>
   session_ids (get_histories (map (\<lambda>k. (k, 7, 7)) [py ''a'', py ''b'', py ''c'']) (start 24 2))
     = [py ''b'', py ''c'']"
proof -
  have h1: "(1::int) \<le> 2" by simp
  have h2: "(0::real) \<le> 24 \<and> distinct [py ''a'', py ''b'', py ''c''] \<and>
            int (length [py ''a'', py ''b'', py ''c'']) = 2 + 1"
    by (simp add: py_def)
  note t = store_size_bounded [OF h1, of "[(py ''a'', 0, 5), (py ''a'', 90000, 90001)]" 24
      "[py ''a'', py ''b'', py ''c'']" 7]
  from t have a: "int (length (session_ids (get_histories [(py ''a'', 0, 5), (py ''a'', 90000, 90001)] (start 24 2)))) \<le> 2"
    by (rule conjunct1)
  from t [THEN conjunct2, THEN mp, OF h2]
  have b: "session_ids (get_histories (map (\<lambda>k. (k, 7, 7)) [py ''a'', py ''b'', py ''c'']) (start 24 2))
             = tl [py ''a'', py ''b'', py ''c'']"
    by (elim conjE)
  from h1 h2 a b show ?thesis by simp
qed

text \<open>
  With \<open>max_sessions = 0\<close> the claim fails as stated: \<open>_remove_oldest_session\<close> returns at
  once on the empty dict, the new session is stored all the same, and the store holds one
  session.
\<close>

theorem store_size_counterexample:
  "\<not> int (length (session_ids (get_histories [(py ''a'', 0, 0)] (start 24 0)))) \<le> 0"
  by (simp add: run_defs)

subsection \<open>Eviction at capacity\<close>

text \<open>
  Claim C2, amended. When \<open>get_history\<close> is called with an identifier that is not stored
  after the sweep, and the swept store is at capacity and not empty, exactly one record is
  removed before the new session is appended, one whose \<open>last_access\<close> is smallest. In
  particular, with \<open>max_sessions = 2\<close>: creating \<open>"a"\<close> and \<open>"b"\<close> at time 0, accessing
  \<open>"a"\<close> after one hour and creating \<open>"c"\<close> after two hours evicts \<open>"b"\<close> and leaves
  \<open>"a"\<close> and \<open>"c"\<close>.
\<close>

theorem capacity_eviction:
  assumes "well_formed st"
    and "map_of (sessions (clean_expired_sessions t1 (session_manager st))) sid = None"
    and "max_sessions (session_manager st)
           \<le> int (length (sessions (clean_expired_sessions t1 (session_manager st))))"
    and "sessions (clean_expired_sessions t1 (session_manager st)) \<noteq> []"
  shows "(\<exists>k d. (k, d) \<in> set (sessions (clean_expired_sessions t1 (session_manager st))) \<and>
            (\<forall>p \<in> set (sessions (clean_expired_sessions t1 (session_manager st))).
               last_access d \<le> last_access (snd p)) \<and>
            sessions (session_manager (snd (get_history sid t1 t2 st))) =
              remove1 (k, d) (sessions (clean_expired_sessions t1 (session_manager st)))
                @ [(sid, \<lparr>history = next_ref st, last_access = t2\<rparr>)]) \<and>
         session_ids (get_histories
            [(py ''a'', 0, 0), (py ''b'', 0, 0), (py ''a'', 3600, 3600), (py ''c'', 7200, 7200)]
            (start 24 2)) = [py ''a'', py ''c'']"
proof
  let ?cl = "clean_expired_sessions t1 (session_manager st)"
  note dk = well_formedD(1) [OF assms(1)]
  have dk': "distinct (map fst (sessions ?cl))"
    using dk by (simp add: sessions_clean_expired [OF dk] distinct_map_filter)
  define base where "base = (if max_sessions (session_manager st) \<le> int (length (sessions ?cl))
                              then remove_oldest_session ?cl else ?cl)"
  from remove_oldest_least [OF dk' assms(4)] obtain k d where kd:
    "(k, d) \<in> set (sessions ?cl)"
    "\<forall>p \<in> set (sessions ?cl). last_access d \<le> last_access (snd p)"
    "sessions (remove_oldest_session ?cl) = remove1 (k, d) (sessions ?cl)" by blast
  have "sessions (session_manager (snd (get_history sid t1 t2 st))) =
          remove1 (k, d) (sessions ?cl) @ [(sid, \<lparr>history = next_ref st, last_access = t2\<rparr>)]"
    using assms(3) kd(3) by (simp add: get_history_new [OF assms(2) base_def] base_def)
  with kd(1,2) show "\<exists>k d. (k, d) \<in> set (sessions ?cl) \<and>
            (\<forall>p \<in> set (sessions ?cl). last_access d \<le> last_access (snd p)) \<and>
            sessions (session_manager (snd (get_history sid t1 t2 st))) =
              remove1 (k, d) (sessions ?cl) @ [(sid, \<lparr>history = next_ref st, last_access = t2\<rparr>)]"
    by blast
  show "session_ids (get_histories
            [(py ''a'', 0, 0), (py ''b'', 0, 0), (py ''a'', 3600, 3600), (py ''c'', 7200, 7200)]
            (start 24 2)) = [py ''a'', py ''c'']"
    by (simp add: run_defs py_def)
qed

lemma two_sessions_eq:
  "two_sessions =
     \<lparr>session_manager =
        \<lparr>sessions = [(py ''a'', \<lparr>history = 0, last_access = 3600\<rparr>),
                     (py ''b'', \<lparr>history = 1, last_access = 0\<rparr>)],
         expiry_hours = 24, max_sessions = 2\<rparr>,
      heap = (\<lambda>_. [])(0 := [], Suc 0 := []), next_ref = 2\<rparr>"
  unfolding two_sessions_def by (simp add: run_defs py_def)

lemma well_formed_two_sessions: "well_formed two_sessions"
  unfolding two_sessions_eq by (simp add: well_formed_def py_def)

lemma after_c:
  "snd (get_history (py ''c'') 90000 90001 two_sessions) =
     \<lparr>session_manager =
        \<lparr>sessions = [(py ''a'', \<lparr>history = 0, last_access = 3600\<rparr>),
                     (py ''c'', \<lparr>history = 2, last_access = 90001\<rparr>)],
         expiry_hours = 24, max_sessions = 2\<rparr>,
      heap = (\<lambda>_. [])(0 := [], Suc 0 := [], 2 := []), next_ref = 3\<rparr>"
  unfolding two_sessions_eq by (simp add: run_defs py_def)

lemma clean_two_sessions:
  "sessions (clean_expired_sessions 90000 (session_manager two_sessions)) =
     [(py ''a'', \<lparr>history = 0, last_access = 3600\<rparr>)]"
  unfolding two_sessions_eq by (simp add: run_defs py_def)

theorem capacity_eviction_witness:
  "well_formed two_sessions \<and>
   map_of (sessions (clean_expired_sessions 7200 (session_manager
     two_sessions)))
     (py ''c'') = None \<and>
   max_sessions (session_manager
     two_sessions)
     \<le> int (length (sessions (clean_expired_sessions 7200 (session_manager
          two_sessions)))) \<and>
   sessions (clean_expired_sessions 7200 (session_manager
     two_sessions)) \<noteq> [] \<and>
   (\<exists>k d. (k, d) \<in> set (sessions (clean_expired_sessions 7200 (session_manager
        two_sessions))) \<and>
      (\<forall>p \<in> set (sessions (clean_expired_sessions 7200 (session_manager
        two_sessions))).
         last_access d \<le> last_access (snd p)) \<and>
      sessions (session_manager (snd (get_history (py ''c'') 7200 7200
        two_sessions))) =
        remove1 (k, d) (sessions (clean_expired_sessions 7200 (session_manager
          two_sessions)))
          @ [(py ''c'', \<lparr>history = next_ref
               two_sessions,
              last_access = 7200\<rparr>)])"
proof -
  let ?st = two_sessions
  have h1: "well_formed ?st"
    unfolding two_sessions_eq by (simp add: well_formed_def py_def)
  have cl: "sessions (clean_expired_sessions 7200 (session_manager ?st)) =
              [(py ''a'', \<lparr>history = 0, last_access = 3600\<rparr>),
               (py ''b'', \<lparr>history = 1, last_access = 0\<rparr>)]"
    unfolding two_sessions_eq by (simp add: clean_expired_sessions_def expired_def py_def)
  have h2: "map_of (sessions (clean_expired_sessions 7200 (session_manager ?st))) (py ''c'') = None"
    unfolding cl by (simp add: py_def)
  have h3: "max_sessions (session_manager ?st)
              \<le> int (length (sessions (clean_expired_sessions 7200 (session_manager ?st))))"
    unfolding cl unfolding two_sessions_eq by simp
  have h4: "sessions (clean_expired_sessions 7200 (session_manager ?st)) \<noteq> []"
    unfolding cl by simp
  from capacity_eviction [OF h1 h2 h3 h4, of 7200, THEN conjunct1] h1 h2 h3 h4
  show ?thesis by (intro conjI)
qed

text \<open>
  With \<open>max_sessions = 0\<close> the empty store is at capacity, the identifier is unseen, and
  no record is removed: the store after the call is the swept store plus the new session.
\<close>

theorem capacity_eviction_counterexample:
  "map_of (sessions (clean_expired_sessions 0 (session_manager (start 24 0)))) (py ''a'') = None \<and>
   max_sessions (session_manager (start 24 0))
     \<le> int (length (sessions (clean_expired_sessions 0 (session_manager (start 24 0))))) \<and>
   sessions (clean_expired_sessions 0 (session_manager (start 24 0))) = [] \<and>
   sessions (session_manager (snd (get_history (py ''a'') 0 0 (start 24 0)))) =
     sessions (clean_expired_sessions 0 (session_manager (start 24 0)))
       @ [(py ''a'', \<lparr>history = 0, last_access = 0\<rparr>)]"
  by (simp add: run_defs)

subsection \<open>Access to a stored session\<close>

lemma clean_expired_eq:
  assumes "distinct (map fst (sessions self))"
  shows "clean_expired_sessions t self =
           self\<lparr>sessions := filter (\<lambda>p. \<not> expired t (expiry_hours self * 3600) (snd p)) (sessions self)\<rparr>"
  using sessions_clean_expired [OF assms, of t]
  by (simp add: clean_expired_sessions_def Let_def)

lemma map_of_filter_distinct:
  assumes "distinct (map fst al)"
  shows "map_of (filter P al) k = (case map_of al k of Some d \<Rightarrow> if P (k, d) then Some d else None | None \<Rightarrow> None)"
  using assms
proof (induction al)
  case Nil
  show ?case by simp
next
  case (Cons a al)
  obtain k' d' where a: "a = (k', d')" by (cases a)
  show ?case
  proof (cases "k' = k")
    case True
    with Cons.prems a have "k \<notin> fst ` set al" by simp
    then have "map_of al k = None" "map_of (filter P al) k = None"
      by (auto simp: map_of_eq_None_iff)
    with True a show ?thesis by simp
  next
    case False
    with Cons a show ?thesis by simp
  qed
qed

text \<open>
  Claim C7. A call of \<open>get_history\<close> with an identifier that is stored and not expired
  returns the history that record holds, and changes the program state in the sessions
  only: the records whose age exceeds the expiry are removed, the record of the identifier
  gets the new \<open>last_access\<close>, and every other record that is not expired stays as it
  was, in its place. No capacity eviction takes place.
\<close>

theorem existing_session_access:
  assumes "well_formed st"
    and "map_of (sessions (session_manager st)) sid = Some d"
    and "\<not> expired t1 (expiry_hours (session_manager st) * 3600) d"
  shows "get_history sid t1 t2 st =
           (history d,
            st\<lparr>session_manager := (session_manager st)
               \<lparr>sessions :=
                  map (\<lambda>p. if fst p = sid then (sid, d\<lparr>last_access := t2\<rparr>) else p)
                    (filter (\<lambda>p. \<not> expired t1 (expiry_hours (session_manager st) * 3600) (snd p))
                       (sessions (session_manager st)))\<rparr>\<rparr>)"
proof -
  note dk = well_formedD(1) [OF assms(1)]
  note ce = clean_expired_eq [OF dk, of t1]
  have "map_of (sessions (clean_expired_sessions t1 (session_manager st))) sid = Some d"
    using assms(2,3) by (simp add: ce map_of_filter_distinct [OF dk])
  from get_history_existing [OF dk this, of t2] show ?thesis
    by (simp add: ce)
qed

theorem existing_session_access_witness:
  "well_formed two_sessions \<and>
   map_of (sessions (session_manager two_sessions)) (py ''a'')
     = Some \<lparr>history = 0, last_access = 3600\<rparr> \<and>
   \<not> expired 90000 (expiry_hours (session_manager two_sessions) * 3600)
        \<lparr>history = 0, last_access = 3600\<rparr> \<and>
   get_history (py ''a'') 90000 90001 two_sessions =
     (0, two_sessions\<lparr>session_manager := (session_manager two_sessions)
           \<lparr>sessions := [(py ''a'', \<lparr>history = 0, last_access = 90001\<rparr>)]\<rparr>\<rparr>)"
proof -
  let ?d = "\<lparr>history = 0, last_access = 3600\<rparr>"
  note wf = well_formed_two_sessions
  have h2: "map_of (sessions (session_manager two_sessions)) (py ''a'') = Some ?d"
    unfolding two_sessions_eq by simp
  have h3: "\<not> expired 90000 (expiry_hours (session_manager two_sessions) * 3600) ?d"
    unfolding two_sessions_eq by (simp add: expired_def)
  have e: "map (\<lambda>p. if fst p = py ''a'' then (py ''a'', ?d\<lparr>last_access := 90001\<rparr>) else p)
             (filter (\<lambda>p. \<not> expired 90000 (expiry_hours (session_manager two_sessions) * 3600) (snd p))
                (sessions (session_manager two_sessions))) =
           [(py ''a'', \<lparr>history = 0, last_access = 90001\<rparr>)]"
    unfolding two_sessions_eq by (simp add: expired_def py_def)
  have "get_history (py ''a'') 90000 90001 two_sessions =
     (0, two_sessions\<lparr>session_manager := (session_manager two_sessions)
           \<lparr>sessions := [(py ''a'', \<lparr>history = 0, last_access = 90001\<rparr>)]\<rparr>\<rparr>)"
    using existing_session_access [OF wf h2 h3, of 90001] unfolding e by simp
  with wf h2 h3 show ?thesis by (intro conjI)
qed

text \<open>
  Claim C9. A call of \<open>get_history\<close> with an identifier that is stored but expired
  returns a brand-new history: a reference that no record held, with no messages. The old
  record is gone, and the identifier is stored again with that new history and the
  \<open>last_access\<close> of this call.
\<close>

theorem expired_session_recreated:
  assumes "well_formed st"
    and "map_of (sessions (session_manager st)) sid = Some d"
    and "expired t1 (expiry_hours (session_manager st) * 3600) d"
  shows "fst (get_history sid t1 t2 st) = next_ref st \<and>
         next_ref st \<notin> set (map (\<lambda>p. history (snd p)) (sessions (session_manager st))) \<and>
         next_ref st \<noteq> history d \<and>
         heap (snd (get_history sid t1 t2 st)) (next_ref st) = [] \<and>
         messages_of (snd (get_history sid t1 t2 st)) sid = Some [] \<and>
         map_of (sessions (session_manager (snd (get_history sid t1 t2 st)))) sid
           = Some \<lparr>history = next_ref st, last_access = t2\<rparr> \<and>
         (sid, d) \<notin> set (sessions (session_manager (snd (get_history sid t1 t2 st))))"
proof -
  let ?cl = "clean_expired_sessions t1 (session_manager st)"
  note dk = well_formedD(1) [OF assms(1)]
  note ce = clean_expired_eq [OF dk, of t1]
  have None: "map_of (sessions ?cl) sid = None"
    using assms(2,3) by (simp add: ce map_of_filter_distinct [OF dk])
  define base where "base = (if max_sessions (session_manager st) \<le> int (length (sessions ?cl))
                              then remove_oldest_session ?cl else ?cl)"
  note gh = get_history_new [OF None base_def, of t2]
  have nb: "map_of (sessions base) sid = None"
    using None by (simp add: base_def map_of_remove_oldest_None)
  then have nin: "sid \<notin> fst ` set (sessions base)" by (simp add: map_of_eq_None_iff)
  have fresh: "next_ref st \<notin> set (map (\<lambda>p. history (snd p)) (sessions (session_manager st)))"
    using well_formedD(3) [OF assms(1)] by blast
  from assms(2) have "(sid, d) \<in> set (sessions (session_manager st))" by (rule map_of_SomeD)
  then have "history d \<in> set (map (\<lambda>p. history (snd p)) (sessions (session_manager st)))"
    by force
  with fresh have ne: "next_ref st \<noteq> history d" by metis
  have m: "map_of (sessions (session_manager (snd (get_history sid t1 t2 st)))) sid
             = Some \<lparr>history = next_ref st, last_access = t2\<rparr>"
    using nb by (simp add: gh map_of_append map_add_def)
  have gone: "(sid, d) \<notin> set (sessions (session_manager (snd (get_history sid t1 t2 st))))"
    using nin ne by (auto simp: gh intro: rev_image_eqI)
  from m have msgs: "messages_of (snd (get_history sid t1 t2 st)) sid = Some []"
    by (simp add: messages_of_def) (simp add: gh)
  from fresh ne m gone msgs show ?thesis by (simp add: gh)
qed

theorem expired_session_recreated_witness:
  "well_formed two_sessions \<and>
   map_of (sessions (session_manager two_sessions)) (py ''b'')
     = Some \<lparr>history = 1, last_access = 0\<rparr> \<and>
   expired 90000 (expiry_hours (session_manager two_sessions) * 3600)
        \<lparr>history = 1, last_access = 0\<rparr> \<and>
   fst (get_history (py ''b'') 90000 90001 two_sessions) = next_ref two_sessions \<and>
   next_ref two_sessions \<noteq> history \<lparr>history = 1, last_access = 0\<rparr> \<and>
   heap (snd (get_history (py ''b'') 90000 90001 two_sessions)) (next_ref two_sessions) = [] \<and>
   messages_of (snd (get_history (py ''b'') 90000 90001 two_sessions)) (py ''b'') = Some [] \<and>
   map_of (sessions (session_manager (snd (get_history (py ''b'') 90000 90001 two_sessions)))) (py ''b'')
     = Some \<lparr>history = next_ref two_sessions, last_access = 90001\<rparr>"
proof -
  let ?d = "\<lparr>history = 1, last_access = 0\<rparr>"
  note wf = well_formed_two_sessions
  have h2: "map_of (sessions (session_manager two_sessions)) (py ''b'') = Some ?d"
    unfolding two_sessions_eq by (simp add: py_def)
  have h3: "expired 90000 (expiry_hours (session_manager two_sessions) * 3600) ?d"
    unfolding two_sessions_eq by (simp add: expired_def)
  note t = expired_session_recreated [OF wf h2 h3, of 90001]
  from t wf h2 h3 show ?thesis by (elim conjE) (intro conjI)
qed

subsection \<open>What the sweep guarantees\<close>

lemma get_history_after_existing:
  assumes wf: "well_formed st"
    and some: "map_of (sessions (clean_expired_sessions t1 (session_manager st))) sid = Some d"
  shows "sessions (session_manager (snd (get_history sid t1 t2 st))) =
           map (\<lambda>p. if fst p = sid then (sid, d\<lparr>last_access := t2\<rparr>) else p)
             (sessions (clean_expired_sessions t1 (session_manager st)))"
    and "session_ids (snd (get_history sid t1 t2 st)) =
           map fst (sessions (clean_expired_sessions t1 (session_manager st)))"
proof -
  note dk = well_formedD(1) [OF wf]
  have dk': "distinct (map fst (sessions (clean_expired_sessions t1 (session_manager st))))"
    using dk by (simp add: sessions_clean_expired [OF dk] distinct_map_filter)
  show a: "sessions (session_manager (snd (get_history sid t1 t2 st))) =
           map (\<lambda>p. if fst p = sid then (sid, d\<lparr>last_access := t2\<rparr>) else p)
             (sessions (clean_expired_sessions t1 (session_manager st)))"
    by (simp add: get_history_existing [OF dk some])
  show "session_ids (snd (get_history sid t1 t2 st)) =
           map fst (sessions (clean_expired_sessions t1 (session_manager st)))"
    unfolding session_ids_def a by (rule touch_same(1) [OF dk' some])
qed

lemma get_history_after_new:
  assumes wf: "well_formed st"
    and none: "map_of (sessions (clean_expired_sessions t1 (session_manager st))) sid = None"
  shows "\<exists>kept. sessions (session_manager (snd (get_history sid t1 t2 st))) =
                  kept @ [(sid, \<lparr>history = next_ref st, last_access = t2\<rparr>)] \<and>
                set kept \<subseteq> set (sessions (clean_expired_sessions t1 (session_manager st))) \<and>
                (int (length (sessions (clean_expired_sessions t1 (session_manager st))))
                   < max_sessions (session_manager st) \<longrightarrow>
                 kept = sessions (clean_expired_sessions t1 (session_manager st))) \<and>
                (\<exists>q. set (sessions (clean_expired_sessions t1 (session_manager st))) - {q} \<subseteq> set kept)"
proof -
  let ?cl = "clean_expired_sessions t1 (session_manager st)"
  note dk = well_formedD(1) [OF wf]
  have dk': "distinct (map fst (sessions ?cl))"
    using dk by (simp add: sessions_clean_expired [OF dk] distinct_map_filter)
  define base where "base = (if max_sessions (session_manager st) \<le> int (length (sessions ?cl))
                              then remove_oldest_session ?cl else ?cl)"
  have 1: "sessions (session_manager (snd (get_history sid t1 t2 st))) =
             sessions base @ [(sid, \<lparr>history = next_ref st, last_access = t2\<rparr>)]"
    by (simp add: get_history_new [OF none base_def])
  have 2: "set (sessions base) \<subseteq> set (sessions ?cl)"
    using remove_oldest_subset [of ?cl] by (simp add: base_def)
  have 3: "int (length (sessions ?cl)) < max_sessions (session_manager st) \<longrightarrow> sessions base = sessions ?cl"
    by (simp add: base_def)
  have 4: "\<exists>q. set (sessions ?cl) - {q} \<subseteq> set (sessions base)"
  proof (cases "max_sessions (session_manager st) \<le> int (length (sessions ?cl)) \<and> sessions ?cl \<noteq> []")
    case True
    from remove_oldest_least [OF dk'] True obtain k d where
      "sessions (remove_oldest_session ?cl) = remove1 (k, d) (sessions ?cl)" by blast
    with True have "sessions base = remove1 (k, d) (sessions ?cl)" by (simp add: base_def)
    then have "set (sessions ?cl) - {(k, d)} \<subseteq> set (sessions base)"
      using dk' by (simp add: distinct_map set_remove1_eq)
    then show ?thesis by (rule exI [of "\<lambda>q. set (sessions ?cl) - {q} \<subseteq> set (sessions base)"])
  next
    case False
    then have "sessions base = sessions ?cl"
      by (auto simp: base_def remove_oldest_empty)
    then show ?thesis by simp
  qed
  from 1 2 3 4 show ?thesis by blast
qed


lemma sweep_facts:
  assumes wf: "well_formed st"
  shows "set (sessions (clean_expired_sessions t1 (session_manager st))) =
           {p \<in> set (sessions (session_manager st)).
              \<not> expired t1 (expiry_hours (session_manager st) * 3600) (snd p)}"
    and "\<And>p. p \<in> set (sessions (session_manager st)) \<Longrightarrow>
           fst p \<in> fst ` set (sessions (clean_expired_sessions t1 (session_manager st))) \<Longrightarrow>
           \<not> expired t1 (expiry_hours (session_manager st) * 3600) (snd p)"
proof -
  note dk = well_formedD(1) [OF wf]
  show s: "set (sessions (clean_expired_sessions t1 (session_manager st))) =
           {p \<in> set (sessions (session_manager st)).
              \<not> expired t1 (expiry_hours (session_manager st) * 3600) (snd p)}"
    by (simp add: sessions_clean_expired [OF dk])
  fix p assume p: "p \<in> set (sessions (session_manager st))"
    and "fst p \<in> fst ` set (sessions (clean_expired_sessions t1 (session_manager st)))"
  then obtain q where q: "q \<in> set (sessions (clean_expired_sessions t1 (session_manager st)))"
    "fst p = fst q" by blast
  with s have "q \<in> set (sessions (session_manager st))"
    "\<not> expired t1 (expiry_hours (session_manager st) * 3600) (snd q)" by simp_all
  with distinct_keys_eq [OF dk p this(1) q(2)]
  show "\<not> expired t1 (expiry_hours (session_manager st) * 3600) (snd p)" by simp
qed

text \<open>
  Claim C3, amended. After a call of \<open>get_history\<close>, with ages measured at the clock
  reading of its sweep: (1) when the expiry is not negative and the clock did not run
  backwards during the call, no stored record is older than the expiry; (2) a record that
  was older than the expiry is gone, and its identifier is absent unless it is the
  identifier of the call, which is stored again; (3) a record that was not older than the
  expiry is still present when the identifier of the call was already stored or the swept
  store was below capacity; (4) otherwise at most one such record is missing, the one
  evicted for the new session.
\<close>

theorem sweep_on_access:
  assumes wf: "well_formed st"
  shows "(0 \<le> expiry_hours (session_manager st) \<and> t1 \<le> t2 \<longrightarrow>
            (\<forall>p \<in> set (sessions (session_manager (snd (get_history sid t1 t2 st)))).
               \<not> expired t1 (expiry_hours (session_manager st) * 3600) (snd p))) \<and>
         (\<forall>p \<in> set (sessions (session_manager st)).
            expired t1 (expiry_hours (session_manager st) * 3600) (snd p) \<longrightarrow>
              p \<notin> set (sessions (session_manager (snd (get_history sid t1 t2 st)))) \<and>
              (fst p \<noteq> sid \<longrightarrow> fst p \<notin> set (session_ids (snd (get_history sid t1 t2 st))))) \<and>
         (\<forall>p \<in> set (sessions (session_manager st)).
            \<not> expired t1 (expiry_hours (session_manager st) * 3600) (snd p) \<longrightarrow>
            (map_of (sessions (clean_expired_sessions t1 (session_manager st))) sid \<noteq> None \<or>
             int (length (sessions (clean_expired_sessions t1 (session_manager st))))
               < max_sessions (session_manager st)) \<longrightarrow>
            fst p \<in> set (session_ids (snd (get_history sid t1 t2 st)))) \<and>
         (\<exists>q. \<forall>p \<in> set (sessions (session_manager st)).
            \<not> expired t1 (expiry_hours (session_manager st) * 3600) (snd p) \<and> p \<noteq> q \<longrightarrow>
            fst p \<in> set (session_ids (snd (get_history sid t1 t2 st))))"
proof -
  let ?al = "sessions (session_manager st)"
  let ?cl = "sessions (clean_expired_sessions t1 (session_manager st))"
  let ?D = "expiry_hours (session_manager st) * 3600"
  let ?after = "sessions (session_manager (snd (get_history sid t1 t2 st)))"
  let ?ids = "session_ids (snd (get_history sid t1 t2 st))"
  note sw = sweep_facts(1) [OF wf, of t1] and swk = sweep_facts(2) [OF wf, of _ t1]
  show ?thesis
  proof (cases "map_of ?cl sid")
    case (Some d)
    note after = get_history_after_existing [OF wf Some, of t2]
    have ids: "set ?ids = fst ` set ?cl" by (simp add: after(2))
    have 1: "\<not> expired t1 ?D (snd p)" if "0 \<le> expiry_hours (session_manager st)" "t1 \<le> t2"
      and "p \<in> set ?after" for p
    proof -
      from that(3) have "p \<in> (\<lambda>q. if fst q = sid then (sid, d\<lparr>last_access := t2\<rparr>) else q) ` set ?cl"
        by (simp add: after(1))
      then obtain q where q: "q \<in> set ?cl"
        "p = (if fst q = sid then (sid, d\<lparr>last_access := t2\<rparr>) else q)"
        by (rule imageE)
      show ?thesis
      proof (cases "fst q = sid")
        case True
        with q that(1,2) show ?thesis by (simp add: expired_def)
      next
        case False
        with q sw show ?thesis by simp
      qed
    qed
    have 2: "p \<notin> set ?after \<and> fst p \<notin> set ?ids" if "p \<in> set ?al" "expired t1 ?D (snd p)" for p
    proof
      from swk [OF that(1)] that(2) show k: "fst p \<notin> set ?ids" by (auto simp: ids)
      have "fst ` set ?after = set ?ids" by (simp add: session_ids_def)
      with k show "p \<notin> set ?after" by blast
    qed
    have 3: "fst p \<in> set ?ids" if "p \<in> set ?al" "\<not> expired t1 ?D (snd p)" for p
      using that sw by (auto simp: ids)
    from 1 2 3 show ?thesis by blast
  next
    case None
    from get_history_after_new [OF wf None, of t2] obtain kept q where
      after: "?after = kept @ [(sid, \<lparr>history = next_ref st, last_access = t2\<rparr>)]"
      and sub: "set kept \<subseteq> set ?cl"
      and full: "int (length ?cl) < max_sessions (session_manager st) \<longrightarrow> kept = ?cl"
      and most: "set ?cl - {q} \<subseteq> set kept"
      by blast
    have ids: "set ?ids = insert sid (fst ` set kept)"
      by (simp add: session_ids_def after)
    have 1: "\<not> expired t1 ?D (snd p)" if "0 \<le> expiry_hours (session_manager st)" "t1 \<le> t2"
      and "p \<in> set ?after" for p
    proof (cases "p \<in> set kept")
      case True
      with sub sw show ?thesis by auto
    next
      case False
      with that(3) have "p = (sid, \<lparr>history = next_ref st, last_access = t2\<rparr>)" by (simp add: after)
      with that(1,2) show ?thesis by (simp add: expired_def)
    qed
    have 2: "p \<notin> set ?after \<and> (fst p \<noteq> sid \<longrightarrow> fst p \<notin> set ?ids)"
      if "p \<in> set ?al" "expired t1 ?D (snd p)" for p
    proof -
      from swk [OF that(1)] that(2) have k: "fst p \<notin> fst ` set ?cl" by blast
      with sub have k': "fst p \<notin> fst ` set kept" by blast
      from that(1) have "history (snd p) \<in> set (map (\<lambda>p. history (snd p)) ?al)" by simp
      with well_formedD(3) [OF wf] have "history (snd p) < next_ref st" by blast
      then have "p \<noteq> (sid, \<lparr>history = next_ref st, last_access = t2\<rparr>)" by auto
      with k' show ?thesis by (auto simp: after ids)
    qed
    have 3: "fst p \<in> set ?ids" if "p \<in> set ?al" "\<not> expired t1 ?D (snd p)"
      and "int (length ?cl) < max_sessions (session_manager st)" for p
      using that sw full by (auto simp: ids)
    have 4: "fst p \<in> set ?ids" if "p \<in> set ?al" "\<not> expired t1 ?D (snd p)" "p \<noteq> q" for p
    proof -
      from that sw have "p \<in> set ?cl - {q}" by simp
      with most show ?thesis by (auto simp: ids)
    qed
    from 1 2 3 4 None show ?thesis by blast
  qed
qed

theorem sweep_on_access_witness:
  "well_formed two_sessions \<and>
   0 \<le> expiry_hours (session_manager two_sessions) \<and> (90000::real) \<le> 90001 \<and>
   (py ''a'', \<lparr>history = 0, last_access = 3600\<rparr>)
      \<in> set (sessions (session_manager (snd (get_history (py ''c'') 90000 90001 two_sessions)))) \<and>
   \<not> expired 90000 (expiry_hours (session_manager two_sessions) * 3600)
        \<lparr>history = 0, last_access = 3600\<rparr> \<and>
   (py ''b'', \<lparr>history = 1, last_access = 0\<rparr>) \<in> set (sessions (session_manager two_sessions)) \<and>
   expired 90000 (expiry_hours (session_manager two_sessions) * 3600)
        \<lparr>history = 1, last_access = 0\<rparr> \<and>
   (py ''b'', \<lparr>history = 1, last_access = 0\<rparr>)
      \<notin> set (sessions (session_manager (snd (get_history (py ''c'') 90000 90001 two_sessions)))) \<and>
   py ''b'' \<notin> set (session_ids (snd (get_history (py ''c'') 90000 90001 two_sessions))) \<and>
   (py ''a'', \<lparr>history = 0, last_access = 3600\<rparr>) \<in> set (sessions (session_manager two_sessions)) \<and>
   int (length (sessions (clean_expired_sessions 90000 (session_manager two_sessions))))
      < max_sessions (session_manager two_sessions) \<and>
   py ''a'' \<in> set (session_ids (snd (get_history (py ''c'') 90000 90001 two_sessions)))"
proof -
  let ?st = two_sessions
  let ?D = "expiry_hours (session_manager two_sessions) * 3600"
  let ?a = "(py ''a'', \<lparr>history = 0, last_access = 3600\<rparr>)"
  let ?b = "(py ''b'', \<lparr>history = 1, last_access = 0\<rparr>)"
  note wf = well_formed_two_sessions
  have h: "0 \<le> expiry_hours (session_manager ?st) \<and> (90000::real) \<le> 90001"
    unfolding two_sessions_eq by simp
  have a_after: "?a \<in> set (sessions (session_manager (snd (get_history (py ''c'') 90000 90001 ?st))))"
    unfolding after_c by simp
  have a_in: "?a \<in> set (sessions (session_manager ?st))"
    and b_in: "?b \<in> set (sessions (session_manager ?st))"
    unfolding two_sessions_eq by simp_all
  have b_exp: "expired 90000 ?D (snd ?b)"
    unfolding two_sessions_eq by (simp add: expired_def)
  have bc: "fst ?b \<noteq> py ''c''" by (simp add: py_def)
  have room: "int (length (sessions (clean_expired_sessions 90000 (session_manager ?st))))
                < max_sessions (session_manager ?st)"
    unfolding clean_two_sessions unfolding two_sessions_eq by simp
  note t = sweep_on_access [OF wf, of 90000 90001 "py ''c''"]
  from t [THEN conjunct1, THEN mp, OF h, THEN bspec, OF a_after]
  have 1: "\<not> expired 90000 ?D (snd ?a)" .
  note tb = t [THEN conjunct2, THEN conjunct1, THEN bspec, OF b_in, THEN mp, OF b_exp]
  from tb have 2: "?b \<notin> set (sessions (session_manager (snd (get_history (py ''c'') 90000 90001 ?st))))"
    by (rule conjunct1)
  from tb have tb': "fst ?b \<noteq> py ''c'' \<longrightarrow>
             fst ?b \<notin> set (session_ids (snd (get_history (py ''c'') 90000 90001 ?st)))"
    by (rule conjunct2)
  from tb' bc have 3: "fst ?b \<notin> set (session_ids (snd (get_history (py ''c'') 90000 90001 ?st)))"
    by (rule mp)
  from t [THEN conjunct2, THEN conjunct2, THEN conjunct1, THEN bspec, OF a_in, THEN mp, OF 1,
      THEN mp, OF disjI2, OF room]
  have 4: "fst ?a \<in> set (session_ids (snd (get_history (py ''c'') 90000 90001 ?st)))" .
  from wf h a_after 1 b_in b_exp 2 3 a_in room 4 show ?thesis by simp
qed

text \<open>
  Three runs where the claim fails as stated. With room for one session, \<open>"a"\<close> is one
  second old when \<open>"b"\<close> is created, and is evicted. With an expiry of one hour, \<open>"a"\<close> is
  two hours old when it is accessed, and is present afterwards. With an expiry of minus one
  hour, the record just created is older than the expiry.
\<close>

theorem sweep_on_access_counterexample:
  "(py ''a'', \<lparr>history = 0, last_access = 0\<rparr>)
     \<in> set (sessions (session_manager (get_histories [(py ''a'', 0, 0)] (start 24 1)))) \<and>
   \<not> expired 1 (24 * 3600) \<lparr>history = 0, last_access = 0\<rparr> \<and>
   py ''a'' \<notin> set (session_ids (get_histories [(py ''a'', 0, 0), (py ''b'', 1, 1)] (start 24 1))) \<and>
   (py ''a'', \<lparr>history = 0, last_access = 0\<rparr>)
     \<in> set (sessions (session_manager (get_histories [(py ''a'', 0, 0)] (start 1 5)))) \<and>
   expired 7200 (1 * 3600) \<lparr>history = 0, last_access = 0\<rparr> \<and>
   py ''a'' \<in> set (session_ids (get_histories [(py ''a'', 0, 0), (py ''a'', 7200, 7200)] (start 1 5))) \<and>
   (py ''a'', \<lparr>history = 0, last_access = 0\<rparr>)
     \<in> set (sessions (session_manager (get_histories [(py ''a'', 0, 0)] (start (- 1) 5)))) \<and>
   expired 0 (- 1 * 3600) \<lparr>history = 0, last_access = 0\<rparr>"
  by (simp add: run_defs py_def)

section \<open>Properties of a turn\<close>

lemma map_of_distinct_in:
  "distinct (map fst al) \<Longrightarrow> (k, d) \<in> set al \<Longrightarrow> map_of al k = Some d"
  by simp

lemma get_history_result:
  assumes wf: "well_formed st"
  shows "\<exists>d. map_of (sessions (session_manager (snd (get_history sid t1 t2 st)))) sid = Some d \<and>
             history d = fst (get_history sid t1 t2 st) \<and> last_access d = t2"
    and "heap (snd (get_history sid t1 t2 st)) (fst (get_history sid t1 t2 st)) =
           (case map_of (sessions (clean_expired_sessions t1 (session_manager st))) sid of
              Some d \<Rightarrow> heap st (history d) | None \<Rightarrow> [])"
proof -
  let ?cl = "clean_expired_sessions t1 (session_manager st)"
  note dk = well_formedD(1) [OF wf]
  have dk': "distinct (map fst (sessions ?cl))"
    using dk by (simp add: sessions_clean_expired [OF dk] distinct_map_filter)
  have "(\<exists>d. map_of (sessions (session_manager (snd (get_history sid t1 t2 st)))) sid = Some d \<and>
             history d = fst (get_history sid t1 t2 st) \<and> last_access d = t2) \<and>
        heap (snd (get_history sid t1 t2 st)) (fst (get_history sid t1 t2 st)) =
           (case map_of (sessions ?cl) sid of Some d \<Rightarrow> heap st (history d) | None \<Rightarrow> [])"
  proof (cases "map_of (sessions ?cl) sid")
    case (Some d)
    note gh = get_history_existing [OF dk Some, of t2]
    from Some have in_cl: "(sid, d) \<in> set (sessions ?cl)" by (rule map_of_SomeD)
    have "(sid, d\<lparr>last_access := t2\<rparr>)
            \<in> set (map (\<lambda>p. if fst p = sid then (sid, d\<lparr>last_access := t2\<rparr>) else p) (sessions ?cl))"
      using in_cl by force
    moreover have "distinct (map fst (map (\<lambda>p. if fst p = sid then (sid, d\<lparr>last_access := t2\<rparr>) else p)
                      (sessions ?cl)))"
      using dk' by (simp only: touch_same(1) [OF dk' Some])
    ultimately have "map_of (map (\<lambda>p. if fst p = sid then (sid, d\<lparr>last_access := t2\<rparr>) else p)
                      (sessions ?cl)) sid = Some (d\<lparr>last_access := t2\<rparr>)"
      by (rule map_of_distinct_in [rotated])
    then show ?thesis using Some by (simp add: gh)
  next
    case None
    define base where "base = (if max_sessions (session_manager st) \<le> int (length (sessions ?cl))
                                then remove_oldest_session ?cl else ?cl)"
    note gh = get_history_new [OF None base_def, of t2]
    have "map_of (sessions base) sid = None"
      using None by (simp add: base_def map_of_remove_oldest_None)
    then show ?thesis using None by (simp add: gh map_of_append map_add_def)
  qed
  then show "\<exists>d. map_of (sessions (session_manager (snd (get_history sid t1 t2 st)))) sid = Some d \<and>
             history d = fst (get_history sid t1 t2 st) \<and> last_access d = t2"
    and "heap (snd (get_history sid t1 t2 st)) (fst (get_history sid t1 t2 st)) =
           (case map_of (sessions ?cl) sid of Some d \<Rightarrow> heap st (history d) | None \<Rightarrow> [])"
    by (rule conjunct1, rule conjunct2)
qed

lemma well_formed_add_message: "well_formed st \<Longrightarrow> well_formed (add_message h m st)"
  by (simp add: well_formed_def add_message_def)

lemma add_message_fields [simp]:
  "session_manager (add_message h m st) = session_manager st"
  "heap (add_message h m st) h = heap st h @ [m]"
  by (simp_all add: add_message_def)

lemma swept_lookup:
  assumes "well_formed st"
  shows "map_of (sessions (clean_expired_sessions t (session_manager st))) sid =
           (case map_of (sessions (session_manager st)) sid of
              Some d \<Rightarrow> if expired t (expiry_hours (session_manager st) * 3600) d then None else Some d
            | None \<Rightarrow> None)"
proof -
  note dk = well_formedD(1) [OF assms]
  show ?thesis
    by (simp add: sessions_clean_expired [OF dk] map_of_filter_distinct [OF dk] split: option.split)
qed

lemma unstored_lookup:
  "sid \<notin> set (session_ids st) \<Longrightarrow> map_of (sessions (session_manager st)) sid = None"
  by (simp add: session_ids_def map_of_eq_None_iff)

text \<open>The state in which the wrapped executor runs, and the history it is shown.\<close>

lemma wrapper_history:
  assumes wf: "well_formed st"
    and g_def: "g = get_history sid t1 t2 st"
    and st1_def: "st1 = add_message (fst g) (HumanMessage c) (snd g)"
    and g2_def: "g2 = get_history sid t3 t4 st1"
  shows "begin_turn c sid t1 t2 st = (fst g, st1)"
    and "well_formed (snd g2)"
    and "\<exists>d. map_of (sessions (session_manager (snd g2))) sid = Some d \<and> history d = fst g2"
    and "t3 - t2 \<le> expiry_hours (session_manager st) * 3600 \<Longrightarrow>
           fst g2 = fst g \<and> heap (snd g2) (fst g2) = heap (snd g) (fst g) @ [HumanMessage c]"
    and "t3 - t2 > expiry_hours (session_manager st) * 3600 \<Longrightarrow> heap (snd g2) (fst g2) = []"
    and "sid \<notin> set (session_ids st) \<Longrightarrow> heap (snd g) (fst g) = []"
proof -
  have wf': "well_formed (snd g)" unfolding g_def by (rule well_formed_get_history [OF wf])
  have wf1: "well_formed st1" unfolding st1_def by (rule well_formed_add_message [OF wf'])
  from get_history_result(1) [OF wf, of sid t1 t2] obtain d where
    d: "map_of (sessions (session_manager (snd g))) sid = Some d" "history d = fst g" "last_access d = t2"
    unfolding g_def by blast
  have d1: "map_of (sessions (session_manager st1)) sid = Some d" using d(1) by (simp add: st1_def)
  have E: "expiry_hours (session_manager st1) = expiry_hours (session_manager st)"
    by (simp add: st1_def g_def get_history_fields)
  show "begin_turn c sid t1 t2 st = (fst g, st1)"
    by (simp add: begin_turn_def st1_def g_def split: prod.splits)
  show "well_formed (snd g2)" unfolding g2_def by (rule well_formed_get_history [OF wf1])
  from get_history_result(1) [OF wf1, of sid t3 t4]
  show "\<exists>d. map_of (sessions (session_manager (snd g2))) sid = Some d \<and> history d = fst g2"
    unfolding g2_def by blast
  note h2 = get_history_result(2) [OF wf1, of sid t3 t4, folded g2_def]
  note sl = swept_lookup [OF wf1, of t3 sid]
  show "fst g2 = fst g \<and> heap (snd g2) (fst g2) = heap (snd g) (fst g) @ [HumanMessage c]"
    if "t3 - t2 \<le> expiry_hours (session_manager st) * 3600"
  proof -
    from that have sw: "map_of (sessions (clean_expired_sessions t3 (session_manager st1))) sid = Some d"
      by (simp add: sl d1 E expired_def d(3))
    have "fst g2 = history d"
      unfolding g2_def by (simp add: get_history_existing [OF well_formedD(1) [OF wf1] sw])
    with h2 d(2) show ?thesis by (simp add: sw) (simp add: st1_def)
  qed
  show "heap (snd g2) (fst g2) = []" if "t3 - t2 > expiry_hours (session_manager st) * 3600"
  proof -
    from that have "map_of (sessions (clean_expired_sessions t3 (session_manager st1))) sid = None"
      by (simp add: sl d1 E expired_def d(3))
    with h2 show ?thesis by simp
  qed
  show "heap (snd g) (fst g) = []" if "sid \<notin> set (session_ids st)"
    using get_history_result(2) [OF wf, of sid t1 t2, folded g_def]
      swept_lookup [OF wf, of t1 sid] unstored_lookup [OF that] by simp
qed

lemmas turn_defs = generate_openai_stream_def begin_turn_def add_message_def emit_def
  turn_outcome_def agent_with_chat_history_def messages_of_def
  failing_executor_def replying_executor_def reply_turn_def


text \<open>
  A successful turn on a session that is still live at the wrapper's \<open>get_history\<close> adds
  four messages: the user's message is appended at line 219 and again by the wrapper, the
  answer by the wrapper and again at line 233.
\<close>

lemma successful_turn_messages:
  assumes "well_formed st"
    and "turn_outcome agent_executor c sid t1 t2 t3 t4 st = Inr r"
    and "t3 - t2 \<le> expiry_hours (session_manager st) * 3600"
  shows "messages_of (snd (generate_openai_stream agent_executor dumps c sid fmt t1 t2 t3 t4 st)) sid =
           Some (heap (snd (get_history sid t1 t2 st)) (fst (get_history sid t1 t2 st))
                   @ [HumanMessage c, HumanMessage c, AIMessage r, AIMessage r])"
proof -
  define g where "g = get_history sid t1 t2 st"
  define st1 where "st1 = add_message (fst g) (HumanMessage c) (snd g)"
  define g2 where "g2 = get_history sid t3 t4 st1"
  note w = wrapper_history [OF assms(1) g_def st1_def g2_def]
  note same = w(4) [OF assms(3)]
  obtain h2 s2 where g2: "g2 = (h2, s2)" by (cases g2)
  then have g2': "get_history sid t3 t4 st1 = (h2, s2)" by (simp add: g2_def)
  from same have h2: "h2 = fst g" by (simp add: g2)
  from assms(2) have ex: "agent_executor (heap s2 h2) c = Inr r"
    by (simp add: turn_outcome_def w(1) agent_with_chat_history_def g2' split: sum.splits)
  have "snd (generate_openai_stream agent_executor dumps c sid fmt t1 t2 t3 t4 st) =
               add_message (fst g) (AIMessage r)
                 (add_message h2 (AIMessage r) (add_message h2 (HumanMessage c) s2))"
    using ex by (simp add: generate_openai_stream_def w(1) agent_with_chat_history_def g2')
  then have gen: "snd (generate_openai_stream agent_executor dumps c sid fmt t1 t2 t3 t4 st) =
               add_message (fst g) (AIMessage r)
                 (add_message (fst g) (AIMessage r) (add_message (fst g) (HumanMessage c) (snd g2)))"
    by (simp add: g2 h2)
  from w(3) same obtain d where "map_of (sessions (session_manager (snd g2))) sid = Some d"
    "history d = fst g" by auto
  then show ?thesis using same unfolding gen g_def [symmetric]
    by (auto simp: messages_of_def)
qed



text \<open>
  Claim C8 says that after two successful turns on session \<open>"s2"\<close>, the second started
  after the first completed, the history is the first user message, the first answer, the
  second user message, the second answer. The program leaves every one of them twice: two
  turns on a new session in the default store, \<open>"Hi"\<close> and then \<open>"Book"\<close>, each answered
  with \<open>"Re: "\<close> and the user's text.
\<close>

theorem doubled_history:
  "messages_of (reply_turn (py ''s2'') (py ''Book'') 10
       (reply_turn (py ''s2'') (py ''Hi'') 0 (start 24 1000))) (py ''s2'') =
     Some [HumanMessage (py ''Hi''), HumanMessage (py ''Hi''),
           AIMessage (py ''Re: Hi''), AIMessage (py ''Re: Hi''),
           HumanMessage (py ''Book''), HumanMessage (py ''Book''),
           AIMessage (py ''Re: Book''), AIMessage (py ''Re: Book'')]"
  by (simp add: turn_defs run_defs py_def)

end
